theory Spec2Isabelle
  imports Main "HOL-Library.AList" "HOL-Library.Char_ord" "HOL-Library.List_Lexorder"
begin

section \<open>Data model\<close>

text \<open>
  A numpy 2D array is a list of rows; \<open>parse_floor_plan\<close> pads every line to the
  longest one, so the grids the program sees are rectangular. Bounds are read row by row
  (\<open>in_bounds\<close>), so the facts below hold for every list of rows.
\<close>

type_synonym 'a array2 = "'a list list"

type_synonym pos = "nat \<times> nat"

datatype py_error = IndexError | KeyError

definition shape :: "'a array2 \<Rightarrow> nat \<times> nat" where
  "shape g = (length g, if g = [] then 0 else length (hd g))"

definition in_bounds :: "'a array2 \<Rightarrow> pos \<Rightarrow> bool" where
  "in_bounds g p = (fst p < length g \<and> snd p < length (g ! fst p))"

definition get2 :: "'a array2 \<Rightarrow> pos \<Rightarrow> 'a" where
  "get2 g p = g ! fst p ! snd p"

definition set2 :: "'a array2 \<Rightarrow> pos \<Rightarrow> 'a \<Rightarrow> 'a array2" where
  "set2 g p v = g[fst p := (g ! fst p)[snd p := v]]"

definition CHAIR_TYPES :: "char list" where
  "CHAIR_TYPES = [CHR ''W'', CHR ''P'', CHR ''S'', CHR ''C'']"

definition WALL_CHARS :: "char set" where
  "WALL_CHARS = {CHR ''+'', CHR ''-'', CHR ''|'', CHR ''/''}"

section \<open>Room Locator: \<open>find_rooms\<close>\<close>

text \<open>
  \<open>re.finditer(r"\(([^)]+)\)", line)\<close>: the matches of the pattern in one row, left to
  right and non-overlapping, each as (group 1, start of the match). At an opening
  parenthesis the greedy class \<open>[^)]+\<close> takes the longest run of characters other than
  the closing parenthesis; the match succeeds when that run is not empty and a closing
  parenthesis follows it (giving characters back cannot help, the next one is then not
  a closing parenthesis). The scan resumes after the match, or at the next column when
  there is none.
\<close>

abbreviation not_close :: "char \<Rightarrow> bool" where
  "not_close \<equiv> (\<lambda>y. y \<noteq> CHR '')'')"

function finditer :: "nat \<Rightarrow> string \<Rightarrow> (string \<times> nat) list" where
  "finditer i [] = []"
| "finditer i (x # xs) =
     (if x = CHR ''(''
         \<and> takeWhile not_close xs \<noteq> [] \<and> dropWhile not_close xs \<noteq> []
      then (takeWhile not_close xs, i)
             # finditer (i + length (takeWhile not_close xs) + 2) (tl (dropWhile not_close xs))
      else finditer (Suc i) xs)"
  by pat_completeness auto
termination
proof (relation "measure (\<lambda>(i, xs). length xs)")
  show "wf (measure (\<lambda>(i, xs). length xs))" by simp
next
  fix i :: nat and x :: char and xs :: string
  assume "x = CHR ''('' \<and> takeWhile not_close xs \<noteq> [] \<and> dropWhile not_close xs \<noteq> []"
  have "length (tl (dropWhile not_close xs)) \<le> length (dropWhile not_close xs)" by simp
  also have "\<dots> \<le> length xs" by (rule length_dropWhile_le)
  finally show "((i + length (takeWhile not_close xs) + 2, tl (dropWhile not_close xs)), i, x # xs)
      \<in> measure (\<lambda>(i, xs). length xs)" by simp
next
  fix i :: nat and x :: char and xs :: string
  show "((Suc i, xs), i, x # xs) \<in> measure (\<lambda>(i, xs). length xs)" by simp
qed

text \<open>
  \<open>rooms[name] = (row_idx, match.start())\<close> on a dict: a new key is appended, an
  existing key keeps its place and takes the new value, which is \<open>AList.update\<close>.
\<close>

definition add_matches :: "nat \<Rightarrow> (string \<times> nat) list \<Rightarrow> (string \<times> pos) list \<Rightarrow> (string \<times> pos) list" where
  "add_matches row_idx ms rooms = fold (\<lambda>(name, start). AList.update name (row_idx, start)) ms rooms"

definition find_rooms :: "char array2 \<Rightarrow> (string \<times> pos) list" where
  "find_rooms grid =
     fold (\<lambda>(row_idx, row). add_matches row_idx (finditer 0 row)) (enumerate 0 grid) []"

section \<open>Walkability Classifier\<close>

text \<open>\<open>np.isin(room_array, list(WALL_CHARS), invert=True)\<close>\<close>

definition walkable :: "char array2 \<Rightarrow> bool array2" where
  "walkable room_array = map (map (\<lambda>ch. ch \<notin> WALL_CHARS)) room_array"


section \<open>The hand-written labeler: \<open>flood_fill\<close> and \<open>label_rooms\<close>\<close>

text \<open>
  The inner \<open>for dr, dc in [(-1, 0), (1, 0), (0, -1), (0, 1)]\<close> of \<open>flood_fill\<close>: a
  neighbour inside the array whose value is 1 is overwritten with the label and
  appended to the queue. Coordinates are Python integers, so \<open>row - 1\<close> may be negative
  and is rejected by the bounds test.
\<close>

fun visit_neighbours ::
  "int array2 \<Rightarrow> int \<Rightarrow> int \<times> int \<Rightarrow> (int \<times> int) list \<Rightarrow> (int \<times> int) list
     \<Rightarrow> int array2 \<times> (int \<times> int) list" where
  "visit_neighbours array label (row, col) [] queue = (array, queue)"
| "visit_neighbours array label (row, col) ((dr, dc) # ds) queue =
     (let nr = row + dr; nc = col + dc; (rows, cols) = shape array
      in if 0 \<le> nr \<and> nr < int rows \<and> 0 \<le> nc \<and> nc < int cols
            \<and> get2 array (nat nr, nat nc) = 1
         then visit_neighbours (set2 array (nat nr, nat nc) label) label (row, col) ds
                (queue @ [(nr, nc)])
         else visit_neighbours array label (row, col) ds queue)"

text \<open>
  The \<open>while queue\<close> loop. It does not return when the label is 1 and a neighbour holds
  1 (the cell is appended again and again), hence the option.
\<close>

partial_function (option) flood_fill_loop ::
  "int array2 \<Rightarrow> (int \<times> int) list \<Rightarrow> int \<Rightarrow> int array2 option" where
  "flood_fill_loop array queue label =
     (case queue of
        [] \<Rightarrow> Some array
      | rc # queue' \<Rightarrow>
          (case visit_neighbours array label rc [(-1, 0), (1, 0), (0, -1), (0, 1)] queue' of
             (array', queue'') \<Rightarrow> flood_fill_loop array' queue'' label))"

declare flood_fill_loop.simps [code]

definition flood_fill :: "int array2 \<Rightarrow> int \<times> int \<Rightarrow> int \<Rightarrow> int array2 option" where
  "flood_fill array start label = flood_fill_loop array [start] label"

fun label_rooms_loop :: "int array2 \<Rightarrow> int \<Rightarrow> (string \<times> pos) list \<Rightarrow> int array2 option" where
  "label_rooms_loop labels current_label [] = Some labels"
| "label_rooms_loop labels current_label ((name, (row, col)) # rooms) =
     (case flood_fill labels (int row, int col) current_label of
        None \<Rightarrow> None
      | Some labels' \<Rightarrow> label_rooms_loop labels' (current_label + 1) rooms)"

definition label_rooms :: "bool array2 \<Rightarrow> (string \<times> pos) list \<Rightarrow> int array2 option" where
  "label_rooms walkable_mask rooms =
     label_rooms_loop (map (map (\<lambda>b. if b then 1 else 0)) walkable_mask) 2 rooms"

section \<open>Region Labeler\<close>

text \<open>
  The cells of a grid in row-major order, and 4-directional adjacency: two cells are
  adjacent when they differ by one step up, down, left or right.
\<close>

definition positions :: "'a array2 \<Rightarrow> pos list" where
  "positions g = concat (map (\<lambda>r. map (\<lambda>c. (r, c)) [0..<length (g ! r)]) [0..<length g])"

definition adj4 :: "pos \<Rightarrow> pos \<Rightarrow> bool" where
  "adj4 p q = ((fst p = fst q \<and> (snd p = Suc (snd q) \<or> snd q = Suc (snd p)))
             \<or> (snd p = snd q \<and> (fst p = Suc (fst q) \<or> fst q = Suc (fst p))))"

definition walk :: "bool array2 \<Rightarrow> pos \<Rightarrow> bool" where
  "walk wmask p = (in_bounds wmask p \<and> get2 wmask p)"

definition step4 :: "bool array2 \<Rightarrow> (pos \<times> pos) set" where
  "step4 wmask = {(p, q). walk wmask p \<and> walk wmask q \<and> adj4 p q}"

definition connected4 :: "bool array2 \<Rightarrow> pos \<Rightarrow> pos \<Rightarrow> bool" where
  "connected4 wmask p q = ((p, q) \<in> (step4 wmask)\<^sup>*)"

text \<open>
  Modelled from the spec: the Region Labeler. \<open>main\<close> calls \<open>scipy.ndimage.label\<close>
  with the cross-shaped structure, and that library function is not among the source
  files. The definitions below follow section 4.3 of the specification: a row-major scan
  in which the first unlabelled walkable cell found starts the next label (starting at
  1), and a flood fill with an explicit queue marks every cell reachable from that seed
  before the scan advances.
\<close>

definition nbrs4 :: "pos \<Rightarrow> pos list" where
  "nbrs4 p =
     (if 0 < fst p then [(fst p - 1, snd p)] else []) @ [(fst p + 1, snd p)]
     @ (if 0 < snd p then [(fst p, snd p - 1)] else []) @ [(fst p, snd p + 1)]"

definition unlabelled :: "bool array2 \<Rightarrow> int array2 \<Rightarrow> pos \<Rightarrow> bool" where
  "unlabelled wmask labels p =
     (in_bounds wmask p \<and> in_bounds labels p \<and> get2 wmask p \<and> get2 labels p = 0)"

function flood :: "bool array2 \<Rightarrow> int array2 \<Rightarrow> pos list \<Rightarrow> int \<Rightarrow> int array2" where
  "flood wmask labels [] k = labels"
| "flood wmask labels (p # queue) k =
     (if unlabelled wmask labels p \<and> k \<noteq> 0
      then flood wmask (set2 labels p k) (queue @ nbrs4 p) k
      else flood wmask labels queue k)"
  by pat_completeness auto
termination
proof (relation "measures [\<lambda>(wmask, labels, queue, k). length (filter (unlabelled wmask labels) (positions wmask)),
                           \<lambda>(wmask, labels, queue, k). length queue]")
  show "wf (measures [\<lambda>(wmask, labels, queue, k). length (filter (unlabelled wmask labels) (positions wmask)),
                      \<lambda>(wmask, labels, queue, k). length queue])"
    by simp
next
  fix wmask :: "bool array2" and labels :: "int array2" and p :: pos and queue :: "pos list"
    and k :: int
  assume a: "unlabelled wmask labels p \<and> k \<noteq> 0"
  let ?L = "set2 labels p k"
  have inb: "in_bounds labels p" "in_bounds wmask p" using a by (simp_all add: unlabelled_def)
  have pin: "p \<in> set (positions wmask)"
    using inb(2) by (cases p) (force simp: positions_def in_bounds_def)
  have newp: "get2 ?L p = k"
    using inb(1) by (simp add: get2_def set2_def in_bounds_def)
  have other: "get2 ?L q = get2 labels q" if "q \<noteq> p" for q
    using that inb(1) by (cases p; cases q) (auto simp: get2_def set2_def in_bounds_def nth_list_update)
  have inb_eq: "in_bounds ?L q = in_bounds labels q" for q
    using inb(1) by (cases p; cases q) (auto simp: in_bounds_def set2_def nth_list_update)
  have notp: "\<not> unlabelled wmask ?L p"
    using a newp by (simp add: unlabelled_def)
  have sub: "unlabelled wmask ?L q \<Longrightarrow> unlabelled wmask labels q" for q
    using other [of q] inb_eq [of q] notp by (cases "q = p") (auto simp: unlabelled_def)
  have eq: "filter (unlabelled wmask ?L) (positions wmask)
      = filter (unlabelled wmask ?L) (filter (unlabelled wmask labels) (positions wmask))"
    using sub by (auto intro: filter_cong)
  have "p \<in> set (filter (unlabelled wmask labels) (positions wmask))"
    using pin a by simp
  then have "length (filter (unlabelled wmask ?L) (filter (unlabelled wmask labels) (positions wmask)))
      < length (filter (unlabelled wmask labels) (positions wmask))"
    using notp by (rule length_filter_less)
  then show "((wmask, ?L, queue @ nbrs4 p, k), wmask, labels, p # queue, k)
      \<in> measures [\<lambda>(wmask, labels, queue, k). length (filter (unlabelled wmask labels) (positions wmask)),
                  \<lambda>(wmask, labels, queue, k). length queue]"
    using eq by simp
next
  fix wmask :: "bool array2" and labels :: "int array2" and p :: pos and queue :: "pos list"
    and k :: int
  show "((wmask, labels, queue, k), wmask, labels, p # queue, k)
      \<in> measures [\<lambda>(wmask, labels, queue, k). length (filter (unlabelled wmask labels) (positions wmask)),
                  \<lambda>(wmask, labels, queue, k). length queue]"
    by simp
qed

fun scan :: "bool array2 \<Rightarrow> pos list \<Rightarrow> int array2 \<Rightarrow> int \<Rightarrow> int array2" where
  "scan wmask [] labels next_label = labels"
| "scan wmask (p # ps) labels next_label =
     (if unlabelled wmask labels p
      then scan wmask ps (flood wmask labels [p] next_label) (next_label + 1)
      else scan wmask ps labels next_label)"

definition region_label :: "bool array2 \<Rightarrow> int array2" where
  "region_label wmask = scan wmask (positions wmask) (map (map (\<lambda>_. 0)) wmask) 1"

section \<open>Chair Aggregator: \<open>count_chairs\<close>\<close>

type_synonym counts = "(char \<times> int) list"

definition dict_get :: "('k \<times> 'v) list \<Rightarrow> 'k \<Rightarrow> py_error + 'v" where
  "dict_get d k = (case map_of d k of None \<Rightarrow> Inl KeyError | Some v \<Rightarrow> Inr v)"

text \<open>\<open>int(np.sum(room_array[mask] == ch))\<close> with \<open>mask = labels == room_label\<close>\<close>

definition count_masked :: "char array2 \<Rightarrow> int array2 \<Rightarrow> int \<Rightarrow> char \<Rightarrow> int" where
  "count_masked room_array labels room_label ch =
     int (length (filter (\<lambda>p. get2 labels p = room_label \<and> get2 room_array p = ch)
                         (positions room_array)))"

text \<open>The dict comprehension \<open>{ch: int(np.sum(room_array[mask] == ch)) for ch in CHAIR_TYPES}\<close>\<close>

definition region_counts :: "char array2 \<Rightarrow> int array2 \<Rightarrow> int \<Rightarrow> counts" where
  "region_counts room_array labels room_label =
     map (\<lambda>ch. (ch, count_masked room_array labels room_label ch)) CHAIR_TYPES"

text \<open>\<open>for ch in CHAIR_TYPES: total[ch] += counts[ch]\<close> (the dict \<open>total\<close> is \<open>totals\<close> here)\<close>

fun add_counts :: "char list \<Rightarrow> counts \<Rightarrow> counts \<Rightarrow> py_error + counts" where
  "add_counts [] totals counts = Inr totals"
| "add_counts (ch # chs) totals counts =
     (case dict_get totals ch of
        Inl e \<Rightarrow> Inl e
      | Inr t \<Rightarrow>
          (case dict_get counts ch of
             Inl e \<Rightarrow> Inl e
           | Inr c \<Rightarrow> add_counts chs (AList.update ch (t + c) totals) counts))"

text \<open>
  The loop over \<open>rooms.items()\<close>. Indexing \<open>labels[row, col]\<close> outside the array raises,
  and so does the boolean index \<open>room_array[mask]\<close> when the two arrays differ in shape.
\<close>

fun count_chairs_loop ::
  "char array2 \<Rightarrow> int array2 \<Rightarrow> (string \<times> pos) list \<Rightarrow> counts \<times> (string \<times> counts) list
     \<Rightarrow> py_error + counts \<times> (string \<times> counts) list" where
  "count_chairs_loop room_array labels [] (totals, room_counts) = Inr (totals, room_counts)"
| "count_chairs_loop room_array labels ((name, p) # rooms) (totals, room_counts) =
     (if \<not> in_bounds labels p then Inl IndexError
      else if map length labels \<noteq> map length room_array then Inl IndexError
      else
        (let room_label = get2 labels p;
             counts = region_counts room_array labels room_label
         in case add_counts CHAIR_TYPES totals counts of
              Inl e \<Rightarrow> Inl e
            | Inr totals' \<Rightarrow>
                count_chairs_loop room_array labels rooms
                  (totals', AList.update name counts room_counts)))"

definition count_chairs ::
  "char array2 \<Rightarrow> int array2 \<Rightarrow> (string \<times> pos) list
     \<Rightarrow> py_error + counts \<times> (string \<times> counts) list" where
  "count_chairs room_array labels rooms =
     count_chairs_loop room_array labels rooms (map (\<lambda>ch. (ch, 0)) CHAIR_TYPES, [])"

section \<open>Report Formatter: \<open>format_counts\<close> and the printing of \<open>main\<close>\<close>

definition digit_char :: "nat \<Rightarrow> char" where
  "digit_char d = ''0123456789'' ! d"

fun str_nat :: "nat \<Rightarrow> string" where
  "str_nat n = (if n < 10 then [digit_char n] else str_nat (n div 10) @ [digit_char (n mod 10)])"

declare str_nat.simps [simp del]

definition str_int :: "int \<Rightarrow> string" where
  "str_int i = (if i < 0 then CHR ''-'' # str_nat (nat (- i)) else str_nat (nat i))"

fun join :: "string \<Rightarrow> string list \<Rightarrow> string" where
  "join sep [] = []"
| "join sep [x] = x"
| "join sep (x # y # ys) = x @ sep @ join sep (y # ys)"

text \<open>The generator \<open>f"{ch}: {counts[ch]}" for ch in CHAIR_TYPES\<close>\<close>

fun format_items :: "char list \<Rightarrow> counts \<Rightarrow> py_error + string list" where
  "format_items [] counts = Inr []"
| "format_items (ch # chs) counts =
     (case dict_get counts ch of
        Inl e \<Rightarrow> Inl e
      | Inr n \<Rightarrow>
          (case format_items chs counts of
             Inl e \<Rightarrow> Inl e
           | Inr items \<Rightarrow> Inr (([ch] @ '': '' @ str_int n) # items)))"

definition format_counts :: "counts \<Rightarrow> py_error + string" where
  "format_counts counts =
     (case format_items CHAIR_TYPES counts of Inl e \<Rightarrow> Inl e | Inr items \<Rightarrow> Inr (join '', '' items))"

text \<open>
  The lines printed by \<open>main\<close> after the counting, in printing order:
  \<open>for name in sorted(room_counts.keys())\<close> visits the keys in increasing order of
  Python's string comparison, which is the lexicographic order on the characters.
\<close>

fun room_lines :: "(string \<times> counts) list \<Rightarrow> string list \<Rightarrow> py_error + string list" where
  "room_lines room_counts [] = Inr []"
| "room_lines room_counts (name # names) =
     (case dict_get room_counts name of
        Inl e \<Rightarrow> Inl e
      | Inr counts \<Rightarrow>
          (case format_counts counts of
             Inl e \<Rightarrow> Inl e
           | Inr line \<Rightarrow>
               (case room_lines room_counts names of
                  Inl e \<Rightarrow> Inl e
                | Inr rest \<Rightarrow> Inr ((name @ '':'') # line # rest))))"

definition report :: "counts \<Rightarrow> (string \<times> counts) list \<Rightarrow> py_error + string list" where
  "report totals room_counts =
     (case format_counts totals of
        Inl e \<Rightarrow> Inl e
      | Inr line \<Rightarrow>
          (case room_lines room_counts (sort (map fst room_counts)) of
             Inl e \<Rightarrow> Inl e
           | Inr rest \<Rightarrow> Inr (''total:'' # line # rest)))"

text \<open>
  The counts line as the specification words it: the four pairs \<open><type>: <count>\<close> in
  the order W, P, S, C, separated by a comma and a blank.
\<close>

definition counts_line :: "(char \<Rightarrow> string) \<Rightarrow> string" where
  "counts_line c =
     ''W: '' @ c CHR ''W'' @ '', P: '' @ c CHR ''P''
     @ '', S: '' @ c CHR ''S'' @ '', C: '' @ c CHR ''C''"

text \<open>
  A string is the decimal numeral of a number: digits only, no leading zero except for
  the numeral 0 itself, and the value read from left to right is the number; a negative
  integer has a minus sign before the numeral of its absolute value.
\<close>

definition digit_value :: "char \<Rightarrow> nat" where
  "digit_value c = of_char c - of_char CHR ''0''"

definition numeral_value :: "string \<Rightarrow> nat" where
  "numeral_value s = foldl (\<lambda>a c. 10 * a + digit_value c) 0 s"

definition is_decimal_nat :: "string \<Rightarrow> nat \<Rightarrow> bool" where
  "is_decimal_nat s n =
     (s \<noteq> [] \<and> set s \<subseteq> set ''0123456789''
      \<and> (s = ''0'' \<or> hd s \<in> set ''123456789'') \<and> numeral_value s = n)"

definition is_decimal :: "string \<Rightarrow> int \<Rightarrow> bool" where
  "is_decimal s i =
     (if i < 0 then s \<noteq> [] \<and> hd s = CHR ''-'' \<and> is_decimal_nat (tl s) (nat (- i))
      else is_decimal_nat s (nat i))"

text \<open>The computation of \<open>main\<close> from the parsed grid to the printed lines.\<close>

definition run :: "char array2 \<Rightarrow> py_error + string list" where
  "run room_array =
     (let rooms = find_rooms room_array;
          labels = region_label (walkable room_array)
      in case count_chairs room_array labels rooms of
           Inl e \<Rightarrow> Inl e
         | Inr (totals, room_counts) \<Rightarrow> report totals room_counts)"


text \<open>A room's count for one chair type, read from its counts dict.\<close>

definition count_of :: "counts \<Rightarrow> char \<Rightarrow> int" where
  "count_of counts ch = (case dict_get counts ch of Inl e \<Rightarrow> 0 | Inr n \<Rightarrow> n)"

text \<open>
  The invariant of the row-major scan, for a labelling and the next label to hand out:
  the labelling has the shape of the mask, labels lie between 0 and the next label, only
  walkable cells are labelled, a labelled cell shares its label exactly with the cells
  connected to it, and every label below the next one is in use.
\<close>

definition scan_inv :: "bool array2 \<Rightarrow> int array2 \<Rightarrow> int \<Rightarrow> bool" where
  "scan_inv wmask labels next_label =
     (map length labels = map length wmask \<and> 0 < next_label
      \<and> (\<forall>p. in_bounds wmask p \<longrightarrow> 0 \<le> get2 labels p \<and> get2 labels p < next_label)
      \<and> (\<forall>p. in_bounds wmask p \<and> get2 labels p \<noteq> 0 \<longrightarrow> get2 wmask p)
      \<and> (\<forall>p q. walk wmask p \<and> walk wmask q \<and> get2 labels p \<noteq> 0
             \<longrightarrow> (get2 labels q = get2 labels p \<longleftrightarrow> (p, q) \<in> (step4 wmask)\<^sup>*))
      \<and> (\<forall>l. 0 < l \<and> l < next_label \<longrightarrow> (\<exists>q. walk wmask q \<and> get2 labels q = l)))"

text \<open>
  Row-major order on cells, and the first cell of a region: a walkable cell to which no
  walkable cell earlier in row-major order is connected. The scan discovers a region at
  its first cell.
\<close>

definition before :: "pos \<Rightarrow> pos \<Rightarrow> bool" where
  "before p q = (fst p < fst q \<or> (fst p = fst q \<and> snd p < snd q))"

definition first_of_region :: "bool array2 \<Rightarrow> pos \<Rightarrow> bool" where
  "first_of_region wmask q =
     (walk wmask q \<and> (\<forall>x. walk wmask x \<and> before x q \<longrightarrow> \<not> connected4 wmask x q))"

text \<open>
  The count of a region as the specification words it: the number of cells of the grid
  that carry the region's label and hold the chair symbol.
\<close>

definition region_census :: "char array2 \<Rightarrow> int array2 \<Rightarrow> int \<Rightarrow> char \<Rightarrow> int" where
  "region_census room_array labels l ch =
     int (card {q. in_bounds room_array q \<and> get2 labels q = l \<and> get2 room_array q = ch})"

section \<open>Facts about the Room Locator\<close>

text \<open>
  Every match reported for a row sits on an opening parenthesis, followed by the name
  (not empty, free of closing parentheses) and by a closing parenthesis.
\<close>

lemma finditer_shape:
  "(name, c) \<in> set (finditer i xs) \<Longrightarrow>
     \<exists>pre post. xs = pre @ CHR ''('' # name @ CHR '')'' # post \<and> c = i + length pre
        \<and> name \<noteq> [] \<and> CHR '')'' \<notin> set name"
proof (induction i xs rule: finditer.induct)
  case (1 i)
  then show ?case by simp
next
  case (2 i x xs)
  let ?t = "takeWhile not_close xs" and ?d = "dropWhile not_close xs"
  show ?case
  proof (cases "x = CHR ''('' \<and> ?t \<noteq> [] \<and> ?d \<noteq> []")
    case True
    then have hd: "hd ?d = CHR '')''" using hd_dropWhile [of not_close xs] by simp
    have split: "xs = ?t @ CHR '')'' # tl ?d"
      using True hd takeWhile_dropWhile_id [of not_close xs] by (metis list.collapse)
    have nin: "CHR '')'' \<notin> set ?t" by (auto dest: set_takeWhileD)
    from "2.prems" True
    consider "name = ?t" "c = i" | "(name, c) \<in> set (finditer (i + length ?t + 2) (tl ?d))"
      by auto
    then show ?thesis
    proof cases
      case 1
      have "x # xs = [] @ CHR ''('' # name @ CHR '')'' # tl ?d"
        using True split 1 by simp
      then show ?thesis using 1 True nin by (metis add.right_neutral list.size(3))
    next
      case 2
      from "2.IH"(1) [OF True 2] obtain pre post where
        pp: "tl ?d = pre @ CHR ''('' # name @ CHR '')'' # post" "c = i + length ?t + 2 + length pre"
          "name \<noteq> []" "CHR '')'' \<notin> set name" by blast
      have "x # xs = (x # ?t @ CHR '')'' # pre) @ CHR ''('' # name @ CHR '')'' # post"
        using split pp(1) by simp
      moreover have "c = i + length (x # ?t @ CHR '')'' # pre)" using pp(2) by simp
      ultimately show ?thesis using pp(3,4) by blast
    qed
  next
    case False
    with "2.prems" have "(name, c) \<in> set (finditer (Suc i) xs)" by auto
    from "2.IH"(2) [OF False this] obtain pre post where
      pp: "xs = pre @ CHR ''('' # name @ CHR '')'' # post" "c = Suc i + length pre"
        "name \<noteq> []" "CHR '')'' \<notin> set name" by blast
    have "x # xs = (x # pre) @ CHR ''('' # name @ CHR '')'' # post" using pp(1) by simp
    moreover have "c = i + length (x # pre)" using pp(2) by simp
    ultimately show ?thesis using pp(3,4) by blast
  qed
qed

lemma set_update_subset: "set (AList.update k v al) \<subseteq> insert (k, v) (set al)"
  by (induction al) auto

lemma update_fresh: "k \<notin> fst ` set al \<Longrightarrow> AList.update k v al = al @ [(k, v)]"
  by (induction al) auto

lemma add_matches_subset:
  "set (add_matches r ms rooms) \<subseteq> set rooms \<union> {(name, (r, c)) | name c. (name, c) \<in> set ms}"
proof (induction ms arbitrary: rooms)
  case Nil
  then show ?case by (simp add: add_matches_def)
next
  case (Cons m ms)
  obtain name c where m: "m = (name, c)" by (cases m)
  have "add_matches r (m # ms) rooms = add_matches r ms (AList.update name (r, c) rooms)"
    by (simp add: add_matches_def m)
  then show ?case
    using Cons.IH [of "AList.update name (r, c) rooms"] set_update_subset [of name "(r, c)" rooms] m
    by auto
qed

lemma add_matches_distinct:
  "distinct (map fst rooms) \<Longrightarrow> distinct (map fst (add_matches r ms rooms))"
  unfolding add_matches_def
  by (induction ms arbitrary: rooms) (auto simp: distinct_update)

lemma fold_rows_subset:
  "set (fold (\<lambda>(row_idx, row). add_matches row_idx (finditer 0 row)) (enumerate n rows) acc)
     \<subseteq> set acc \<union> {(name, (n + j, c)) | name j c.
            j < length rows \<and> (name, c) \<in> set (finditer 0 (rows ! j))}"
proof (induction rows arbitrary: n acc)
  case Nil
  then show ?case by simp
next
  case (Cons row rows)
  let ?acc = "add_matches n (finditer 0 row) acc"
  let ?f = "\<lambda>(row_idx, row). add_matches row_idx (finditer 0 row)"
  have a: "set ?acc \<subseteq> set acc \<union> {(name, (n, c)) | name c. (name, c) \<in> set (finditer 0 row)}"
    by (rule add_matches_subset)
  have b: "set (fold ?f (enumerate (Suc n) rows) ?acc)
     \<subseteq> set ?acc \<union> {(name, (Suc n + j, c)) | name j c.
            j < length rows \<and> (name, c) \<in> set (finditer 0 (rows ! j))}"
    by (rule Cons.IH)
  show ?case
  proof
    fix e
    assume "e \<in> set (fold ?f (enumerate n (row # rows)) acc)"
    then have "e \<in> set (fold ?f (enumerate (Suc n) rows) ?acc)"
      by simp
    with b consider "e \<in> set ?acc"
      | name j c where "e = (name, (Suc n + j, c))" "j < length rows"
          "(name, c) \<in> set (finditer 0 (rows ! j))"
      by blast
    then show "e \<in> set acc \<union> {(name, (n + j, c)) | name j c.
        j < length (row # rows) \<and> (name, c) \<in> set (finditer 0 ((row # rows) ! j))}"
    proof cases
      case 1
      with a consider "e \<in> set acc"
        | name c where "e = (name, (n, c))" "(name, c) \<in> set (finditer 0 row)"
        by blast
      then show ?thesis
      proof cases
        case 1
        then show ?thesis by simp
      next
        case 2
        then have "e = (name, (n + 0, c)) \<and> 0 < length (row # rows)
            \<and> (name, c) \<in> set (finditer 0 ((row # rows) ! 0))"
          by simp
        then show ?thesis by blast
      qed
    next
      case 2
      then have "e = (name, (n + Suc j, c)) \<and> Suc j < length (row # rows)
          \<and> (name, c) \<in> set (finditer 0 ((row # rows) ! Suc j))"
        by simp
      then show ?thesis by blast
    qed
  qed
qed

lemma fold_rows_distinct:
  "distinct (map fst acc) \<Longrightarrow>
   distinct (map fst (fold (\<lambda>(row_idx, row). add_matches row_idx (finditer 0 row))
                        (enumerate n rows) acc))"
  by (induction rows arbitrary: n acc) (auto simp: add_matches_distinct)

lemma find_rooms_entry:
  assumes "(name, (r, c)) \<in> set (find_rooms grid)"
  shows "r < length grid \<and> (name, c) \<in> set (finditer 0 (grid ! r))"
  using fold_rows_subset [of 0 grid "[]"] assms by (auto simp: find_rooms_def)

lemma find_rooms_distinct: "distinct (map fst (find_rooms grid))"
  unfolding find_rooms_def by (rule fold_rows_distinct) simp

lemma find_rooms_cell:
  assumes "(name, (r, c)) \<in> set (find_rooms grid)"
  shows "\<exists>pre post. r < length grid \<and> grid ! r = pre @ CHR ''('' # name @ CHR '')'' # post
     \<and> c = length pre \<and> name \<noteq> [] \<and> CHR '')'' \<notin> set name"
  using find_rooms_entry [OF assms] finditer_shape [of name c 0 "grid ! r"] by auto

section \<open>Facts about the Chair Aggregator\<close>

lemma add_counts_maps:
  "add_counts CHAIR_TYPES (map (\<lambda>ch. (ch, f ch)) CHAIR_TYPES) (map (\<lambda>ch. (ch, g ch)) CHAIR_TYPES)
     = Inr (map (\<lambda>ch. (ch, f ch + g ch)) CHAIR_TYPES)"
  by (simp add: CHAIR_TYPES_def dict_get_def)

text \<open>
  The loop in closed form: with distinct new names, anchors inside the label grid and
  arrays of one shape, every room appends the counts of the region of its anchor's label
  and adds them to the totals.
\<close>

lemma count_chairs_loop_result:
  assumes "distinct (map fst rooms)" and "fst ` set rooms \<inter> fst ` set rc = {}"
    and "\<forall>(name, p) \<in> set rooms. in_bounds labels p"
    and "map length labels = map length room_array"
  shows "count_chairs_loop room_array labels rooms (map (\<lambda>ch. (ch, f ch)) CHAIR_TYPES, rc)
     = Inr (map (\<lambda>ch. (ch, f ch
               + (\<Sum>(name, p) \<leftarrow> rooms. count_masked room_array labels (get2 labels p) ch)))
              CHAIR_TYPES,
            rc @ map (\<lambda>(name, p). (name, region_counts room_array labels (get2 labels p))) rooms)"
  using assms
proof (induction rooms arbitrary: f rc)
  case Nil
  then show ?case by simp
next
  case (Cons e rooms)
  obtain name p where e: "e = (name, p)" by (cases e)
  let ?g = "count_masked room_array labels (get2 labels p)"
  let ?rc = "rc @ [(name, region_counts room_array labels (get2 labels p))]"
  have fresh: "name \<notin> fst ` set rc" using Cons.prems(2) e by auto
  have inb: "in_bounds labels p" using Cons.prems(3) e by simp
  have add: "add_counts CHAIR_TYPES (map (\<lambda>ch. (ch, f ch)) CHAIR_TYPES)
       (region_counts room_array labels (get2 labels p))
       = Inr (map (\<lambda>ch. (ch, f ch + ?g ch)) CHAIR_TYPES)"
    unfolding region_counts_def by (rule add_counts_maps)
  have step: "count_chairs_loop room_array labels (e # rooms) (map (\<lambda>ch. (ch, f ch)) CHAIR_TYPES, rc)
      = count_chairs_loop room_array labels rooms (map (\<lambda>ch. (ch, f ch + ?g ch)) CHAIR_TYPES, ?rc)"
    using inb Cons.prems(4) add fresh by (simp add: e update_fresh)
  have d: "distinct (map fst rooms)" using Cons.prems(1) by simp
  have disj: "fst ` set rooms \<inter> fst ` set ?rc = {}"
    using Cons.prems(1,2) e by auto
  have inbs: "\<forall>(name, p) \<in> set rooms. in_bounds labels p" using Cons.prems(3) by simp
  show ?case
    unfolding step Cons.IH [OF d disj inbs Cons.prems(4)]
    by (simp add: e add.assoc)
qed

lemma count_chairs_result:
  assumes "distinct (map fst rooms)"
    and "\<forall>(name, p) \<in> set rooms. in_bounds labels p"
    and "map length labels = map length room_array"
  shows "count_chairs room_array labels rooms
     = Inr (map (\<lambda>ch. (ch, \<Sum>(name, p) \<leftarrow> rooms. count_masked room_array labels (get2 labels p) ch))
              CHAIR_TYPES,
            map (\<lambda>(name, p). (name, region_counts room_array labels (get2 labels p))) rooms)"
  unfolding count_chairs_def
  using count_chairs_loop_result [OF assms(1) _ assms(2,3), of "[]" "\<lambda>_. 0"] by simp

lemma count_of_region_counts:
  "ch \<in> set CHAIR_TYPES \<Longrightarrow> count_of (region_counts g L l) ch = count_masked g L l ch"
  by (auto simp: count_of_def region_counts_def dict_get_def CHAIR_TYPES_def)

lemma map_of_rooms:
  "distinct (map fst rooms) \<Longrightarrow> (name, p) \<in> set rooms \<Longrightarrow>
   map_of (map (\<lambda>(name, p). (name, f p)) rooms) name = Some (f p)"
  by (induction rooms) (auto simp: rev_image_eqI)

section \<open>Claims about the Room Locator\<close>

text \<open>
  C2, as the specification states it, fails: the stored anchor is the start of the
  match, which is the cell of the opening parenthesis. For the single row \<open>(a)\<close> the
  room \<open>a\<close> is stored at column 0, which holds the parenthesis, while the first
  character of the name is at column 1.
\<close>

theorem find_rooms_anchor_counterexample:
  "find_rooms [''(a)''] = [(''a'', (0, 0))] \<and> get2 [''(a)''] (0, 0) = CHR ''(''
   \<and> get2 [''(a)''] (0, 0) \<noteq> CHR ''a'' \<and> get2 [''(a)''] (0, 1) = CHR ''a''"
  by code_simp

text \<open>
  C2, amended: for every room recorded by the Room Locator the anchor is a cell of the
  grid that holds the opening parenthesis; the name is not empty, its first character is
  in the next cell of the same row, the name fills the cells after the parenthesis and
  the closing parenthesis follows it.
\<close>

theorem find_rooms_anchor_is_parenthesis:
  assumes "(name, (r, c)) \<in> set (find_rooms grid)"
  shows "in_bounds grid (r, c) \<and> get2 grid (r, c) = CHR ''(''
     \<and> in_bounds grid (r, c + 1) \<and> get2 grid (r, c + 1) = hd name \<and> name \<noteq> []
     \<and> take (length name) (drop (c + 1) (grid ! r)) = name
     \<and> in_bounds grid (r, c + 1 + length name)
     \<and> get2 grid (r, c + 1 + length name) = CHR '')''"
proof -
  from find_rooms_cell [OF assms] obtain pre post where
    h: "r < length grid" "grid ! r = pre @ CHR ''('' # name @ CHR '')'' # post"
      "c = length pre" "name \<noteq> []" by blast
  obtain x xs where n: "name = x # xs" using h(4) by (cases name) auto
  show ?thesis
    using h by (simp add: in_bounds_def get2_def nth_append n)
qed

theorem find_rooms_anchor_is_parenthesis_witness:
  "(''a'', (0, 0)) \<in> set (find_rooms [''(a)''])
     \<and> in_bounds [''(a)''] (0, 0) \<and> get2 [''(a)''] (0, 0) = CHR ''(''
     \<and> in_bounds [''(a)''] (0, 0 + 1) \<and> get2 [''(a)''] (0, 0 + 1) = hd ''a'' \<and> ''a'' \<noteq> []
     \<and> take (length ''a'') (drop (0 + 1) ([''(a)''] ! 0)) = ''a''
     \<and> in_bounds [''(a)''] (0, 0 + 1 + length ''a'')
     \<and> get2 [''(a)''] (0, 0 + 1 + length ''a'') = CHR '')''"
proof -
  have h: "(''a'', (0, 0)) \<in> set (find_rooms [''(a)''])" by code_simp
  show ?thesis using h find_rooms_anchor_is_parenthesis [OF h] by (rule conjI)
qed

text \<open>
  C3, as the specification states it, fails: the pattern asks for at least one character
  between the parentheses, so a grid whose only annotation is \<open>()\<close> yields no room at all.
\<close>

theorem find_rooms_empty_name_counterexample:
  "find_rooms [''()''] = [] \<and> find_rooms [''+--+'', ''|()|'', ''+--+''] = []"
  by code_simp

text \<open>
  C3, amended: for every grid, every name stored by the Room Locator has at least one
  character and contains no closing parenthesis; the empty string is never a room name.
\<close>

theorem find_rooms_names_not_empty:
  assumes "(name, p) \<in> set (find_rooms grid)"
  shows "name \<noteq> [] \<and> CHR '')'' \<notin> set name"
proof -
  obtain r c where p: "p = (r, c)" by (cases p)
  from find_rooms_cell [of name r c grid] assms p show ?thesis by blast
qed

theorem find_rooms_names_not_empty_witness:
  "(''ab'', (0, 1)) \<in> set (find_rooms [''|(ab)()|''])
     \<and> ''ab'' \<noteq> [] \<and> CHR '')'' \<notin> set ''ab''"
proof -
  have h: "(''ab'', (0, 1)) \<in> set (find_rooms [''|(ab)()|''])" by code_simp
  show ?thesis using h find_rooms_names_not_empty [OF h] by (rule conjI)
qed

section \<open>Claims about the Chair Aggregator\<close>

lemma sum_list_filter_zero:
  "(\<And>e. e \<in> set xs \<Longrightarrow> \<not> P e \<Longrightarrow> f e = (0::int)) \<Longrightarrow>
   sum_list (map f (filter P xs)) = sum_list (map f xs)"
  by (induction xs) auto

lemma count_masked_wall_label:
  assumes "\<forall>q \<in> set (positions room_array). get2 labels q = l \<longrightarrow> get2 room_array q \<in> WALL_CHARS"
    and "ch \<in> set CHAIR_TYPES"
  shows "count_masked room_array labels l ch = 0"
proof -
  have "ch \<notin> WALL_CHARS" using assms(2) by (auto simp: CHAIR_TYPES_def WALL_CHARS_def)
  then have "filter (\<lambda>p. get2 labels p = l \<and> get2 room_array p = ch) (positions room_array) = []"
    using assms(1) by (auto simp: filter_empty_conv)
  then show ?thesis by (simp add: count_masked_def)
qed

text \<open>
  C5: for every grid and label grid of the same shape in which label 0 marks only wall
  glyphs (a label grid derived from the walkable mask), a room whose anchor cell has
  label 0 gets the count 0 for every chair type, and the totals are those of the same run
  without that room.
\<close>

theorem count_chairs_wall_anchor:
  assumes "distinct (map fst rooms)"
    and "\<forall>(name, p) \<in> set rooms. in_bounds labels p"
    and "map length labels = map length room_array"
    and "\<forall>q \<in> set (positions room_array). get2 labels q = 0 \<longrightarrow> get2 room_array q \<in> WALL_CHARS"
    and "(name, p) \<in> set rooms" and "get2 labels p = 0"
  shows "\<exists>totals room_counts room_counts'.
     count_chairs room_array labels rooms = Inr (totals, room_counts)
     \<and> map_of room_counts name = Some (map (\<lambda>ch. (ch, 0)) CHAIR_TYPES)
     \<and> count_chairs room_array labels (filter (\<lambda>e. fst e \<noteq> name) rooms) = Inr (totals, room_counts')"
proof -
  let ?c = "\<lambda>ch (e :: string \<times> pos). count_masked room_array labels (get2 labels (snd e)) ch"
  let ?rest = "filter (\<lambda>e. fst e \<noteq> name) rooms"
  let ?rc = "\<lambda>rooms. map (\<lambda>(name, p). (name, region_counts room_array labels (get2 labels p))) rooms"
  have res: "count_chairs room_array labels rooms
      = Inr (map (\<lambda>ch. (ch, \<Sum>(name, p) \<leftarrow> rooms. count_masked room_array labels (get2 labels p) ch))
               CHAIR_TYPES, ?rc rooms)"
    by (rule count_chairs_result [OF assms(1-3)])
  have d': "distinct (map fst ?rest)" using assms(1) by (simp add: distinct_map_filter)
  have inb': "\<forall>(name, p) \<in> set ?rest. in_bounds labels p" using assms(2) by auto
  have res': "count_chairs room_array labels ?rest
      = Inr (map (\<lambda>ch. (ch, \<Sum>(name, p) \<leftarrow> ?rest. count_masked room_array labels (get2 labels p) ch))
               CHAIR_TYPES, ?rc ?rest)"
    by (rule count_chairs_result [OF d' inb' assms(3)])
  have zero: "count_masked room_array labels 0 ch = 0" if "ch \<in> set CHAIR_TYPES" for ch
    using count_masked_wall_label [OF assms(4) that] .
  have zeros: "region_counts room_array labels 0 = map (\<lambda>ch. (ch, 0)) CHAIR_TYPES"
    unfolding region_counts_def using zero by (intro map_cong) auto
  have look: "map_of (?rc rooms) name = Some (map (\<lambda>ch. (ch, 0)) CHAIR_TYPES)"
    using map_of_rooms [OF assms(1,5), of "\<lambda>p. region_counts room_array labels (get2 labels p)"]
      assms(6) zeros by simp
  have only: "e = (name, p)" if "e \<in> set rooms" "fst e = name" for e
    using assms(1,5) that by (metis eq_key_imp_eq_value prod.collapse)
  have sums: "(\<Sum>e \<leftarrow> ?rest. ?c ch e) = (\<Sum>e \<leftarrow> rooms. ?c ch e)" if "ch \<in> set CHAIR_TYPES" for ch
  proof (rule sum_list_filter_zero)
    fix e assume "e \<in> set rooms" "\<not> fst e \<noteq> name"
    then have "e = (name, p)" using only by simp
    then show "?c ch e = 0" using assms(6) zero [OF that] by simp
  qed
  have tot: "map (\<lambda>ch. (ch, \<Sum>(name, p) \<leftarrow> ?rest. count_masked room_array labels (get2 labels p) ch)) CHAIR_TYPES
      = map (\<lambda>ch. (ch, \<Sum>(name, p) \<leftarrow> rooms. count_masked room_array labels (get2 labels p) ch)) CHAIR_TYPES"
    using sums by (intro map_cong) (auto simp: case_prod_unfold)
  show ?thesis
    using res res' look tot by simp
qed

theorem count_chairs_wall_anchor_witness:
  "\<exists>totals room_counts room_counts'.
     count_chairs [''+W(a)''] [[0, 1, 1, 1, 1]] [(''x'', (0, 0)), (''a'', (0, 2))] = Inr (totals, room_counts)
     \<and> map_of room_counts ''x'' = Some (map (\<lambda>ch. (ch, 0)) CHAIR_TYPES)
     \<and> count_chairs [''+W(a)''] [[0, 1, 1, 1, 1]]
          (filter (\<lambda>e. fst e \<noteq> ''x'') [(''x'', (0, 0)), (''a'', (0, 2))]) = Inr (totals, room_counts')"
proof -
  let ?g = "[''+W(a)'']" and ?L = "[[0, 1, 1, 1, 1 :: int]]"
  let ?R = "[(''x'', (0, 0)), (''a'', (0, 2 :: nat))] :: (string \<times> pos) list"
  have h1: "distinct (map fst ?R)" by simp
  have h2: "\<forall>(name, p) \<in> set ?R. in_bounds ?L p" by (simp add: in_bounds_def)
  have h3: "map length ?L = map length ?g" by simp
  have pos: "positions ?g = [(0, 0), (0, 1), (0, 2), (0, 3), (0, 4)]" by code_simp
  have h4: "\<forall>q \<in> set (positions ?g). get2 ?L q = 0 \<longrightarrow> get2 ?g q \<in> WALL_CHARS"
    unfolding pos by (simp add: get2_def WALL_CHARS_def)
  have h5: "(''x'', (0, 0)) \<in> set ?R" by simp
  have h6: "get2 ?L (0, 0) = 0" by (simp add: get2_def)
  show ?thesis by (rule count_chairs_wall_anchor [OF h1 h2 h3 h4 h5 h6])
qed

section \<open>Claims about the Report Formatter\<close>

text \<open>\<open>str(n)\<close> of an integer is its decimal numeral.\<close>

lemma digit_cases: "d < 10 \<Longrightarrow> d \<in> {0, 1, 2, 3, 4, 5, 6, 7, 8, 9 :: nat}"
  by auto

lemma digit_char_props:
  assumes "d < 10"
  shows "digit_char d \<in> set ''0123456789''" and "digit_value (digit_char d) = d"
    and "d \<noteq> 0 \<Longrightarrow> digit_char d \<in> set ''123456789''"
  using digit_cases [OF assms]
  by (auto simp: digit_char_def digit_value_def)

lemma numeral_value_snoc: "numeral_value (s @ [c]) = 10 * numeral_value s + digit_value c"
  by (simp add: numeral_value_def)

lemma str_nat_decimal: "is_decimal_nat (str_nat n) n"
proof (induction n rule: str_nat.induct)
  case (1 n)
  show ?case
  proof (cases "n < 10")
    case True
    then have s: "str_nat n = [digit_char n]" by (subst str_nat.simps) simp
    show ?thesis
    proof (cases "n = 0")
      case True
      then show ?thesis unfolding s by (simp add: is_decimal_nat_def digit_char_def numeral_value_def digit_value_def)
    next
      case False
      then show ?thesis unfolding s is_decimal_nat_def
        using digit_char_props [OF True] by (simp add: numeral_value_def)
    qed
  next
    case False
    let ?s = "str_nat (n div 10)" and ?c = "digit_char (n mod 10)"
    have s: "str_nat n = ?s @ [?c]" using False by (subst str_nat.simps) simp
    have ih: "is_decimal_nat ?s (n div 10)" using "1.IH" False by simp
    have c: "n mod 10 < 10" by simp
    have ne: "?s \<noteq> []" and dig: "set ?s \<subseteq> set ''0123456789''"
      and lead: "?s = ''0'' \<or> hd ?s \<in> set ''123456789''" and val: "numeral_value ?s = n div 10"
      using ih unfolding is_decimal_nat_def by blast+
    have "?s \<noteq> ''0''"
    proof
      assume z: "?s = ''0''"
      have "numeral_value ''0'' = 0" by (simp add: numeral_value_def digit_value_def)
      then have "n div 10 = 0" using val z by simp
      then show False using False by simp
    qed
    then have h: "hd (?s @ [?c]) \<in> set ''123456789''" using lead ne by simp
    have d: "set (?s @ [?c]) \<subseteq> set ''0123456789''"
      using dig digit_char_props(1) [OF c] by simp
    have v: "numeral_value (?s @ [?c]) = n"
      unfolding numeral_value_snoc val digit_char_props(2) [OF c] by simp
    show ?thesis unfolding s is_decimal_nat_def using h d v by blast
  qed
qed

lemma str_int_decimal: "is_decimal (str_int i) i"
  by (simp add: is_decimal_def str_int_def str_nat_decimal)

lemma format_counts_line:
  assumes "\<forall>ch \<in> set CHAIR_TYPES. map_of counts ch = Some (c ch)"
  shows "format_counts counts = Inr (counts_line (\<lambda>ch. str_int (c ch)))"
  using assms
  by (simp add: format_counts_def CHAIR_TYPES_def dict_get_def counts_line_def)

lemma room_lines_result:
  assumes "\<forall>name \<in> set names. \<exists>counts. map_of room_counts name = Some counts
             \<and> (\<forall>ch \<in> set CHAIR_TYPES. map_of counts ch = Some (rc name ch))"
  shows "room_lines room_counts names
     = Inr (concat (map (\<lambda>name. [name @ '':'', counts_line (\<lambda>ch. str_int (rc name ch))]) names))"
  using assms
proof (induction names)
  case Nil
  then show ?case by simp
next
  case (Cons name names)
  from Cons.prems obtain counts where
    c: "map_of room_counts name = Some counts"
      "\<forall>ch \<in> set CHAIR_TYPES. map_of counts ch = Some (rc name ch)" by auto
  have f: "format_counts counts = Inr (counts_line (\<lambda>ch. str_int (rc name ch)))"
    by (rule format_counts_line [OF c(2)])
  have ih: "room_lines room_counts names
     = Inr (concat (map (\<lambda>name. [name @ '':'', counts_line (\<lambda>ch. str_int (rc name ch))]) names))"
    using Cons by simp
  show ?case by (simp add: dict_get_def c(1) f ih)
qed

text \<open>
  C7: for every totals dict and every per-room dict that hold the four chair types, the
  printed report is the line \<open>total:\<close>, the counts line of the totals (the four pairs
  \<open><type>: <count>\<close> in the order W, P, S, C, joined by a comma and a blank, each count
  written as its decimal numeral), and then for each room name, in strictly increasing
  lexicographic order, the line \<open><name>:\<close> and the counts line of that room.
\<close>

theorem report_layout:
  assumes "distinct (map fst room_counts)"
    and "\<forall>ch \<in> set CHAIR_TYPES. map_of totals ch = Some (t ch)"
    and "\<forall>(name, counts) \<in> set room_counts. \<forall>ch \<in> set CHAIR_TYPES. map_of counts ch = Some (rc name ch)"
  shows "\<exists>names dec. (\<forall>i. is_decimal (dec i) i)
     \<and> report totals room_counts
         = Inr (''total:'' # counts_line (\<lambda>ch. dec (t ch))
                # concat (map (\<lambda>name. [name @ '':'', counts_line (\<lambda>ch. dec (rc name ch))]) names))
     \<and> sorted_wrt (<) names \<and> set names = fst ` set room_counts"
proof -
  let ?names = "sort (map fst room_counts)"
  have t: "format_counts totals = Inr (counts_line (\<lambda>ch. str_int (t ch)))"
    by (rule format_counts_line [OF assms(2)])
  have each: "\<forall>name \<in> set ?names. \<exists>counts. map_of room_counts name = Some counts
             \<and> (\<forall>ch \<in> set CHAIR_TYPES. map_of counts ch = Some (rc name ch))"
  proof
    fix name assume "name \<in> set ?names"
    then obtain counts where m: "(name, counts) \<in> set room_counts" by auto
    then have "map_of room_counts name = Some counts" using assms(1) by simp
    moreover have "\<forall>ch \<in> set CHAIR_TYPES. map_of counts ch = Some (rc name ch)"
      using assms(3) m by auto
    ultimately show "\<exists>counts. map_of room_counts name = Some counts
             \<and> (\<forall>ch \<in> set CHAIR_TYPES. map_of counts ch = Some (rc name ch))" by blast
  qed
  have r: "report totals room_counts
       = Inr (''total:'' # counts_line (\<lambda>ch. str_int (t ch))
              # concat (map (\<lambda>name. [name @ '':'', counts_line (\<lambda>ch. str_int (rc name ch))]) ?names))"
    by (simp add: report_def t room_lines_result [OF each])
  have s: "sorted_wrt (<) ?names"
    using assms(1) by (simp add: strict_sorted_iff)
  have n: "set ?names = fst ` set room_counts" by simp
  have d: "\<forall>i. is_decimal (str_int i) i" using str_int_decimal by blast
  show ?thesis using d r s n by blast
qed

theorem report_layout_witness:
  "report [(CHR ''W'', 2), (CHR ''P'', 0), (CHR ''S'', 0), (CHR ''C'', 12)]
        [(''zoo'', [(CHR ''W'', 2), (CHR ''P'', 0), (CHR ''S'', 0), (CHR ''C'', 0)]),
         (''bar'', [(CHR ''W'', 0), (CHR ''P'', 0), (CHR ''S'', 0), (CHR ''C'', 12)])]
     = Inr [''total:'', ''W: 2, P: 0, S: 0, C: 12'',
            ''bar:'', ''W: 0, P: 0, S: 0, C: 12'',
            ''zoo:'', ''W: 2, P: 0, S: 0, C: 0'']
   \<and> (\<exists>names dec. (\<forall>i. is_decimal (dec i) i)
        \<and> report [(CHR ''W'', 2), (CHR ''P'', 0), (CHR ''S'', 0), (CHR ''C'', 12)]
            [(''zoo'', [(CHR ''W'', 2), (CHR ''P'', 0), (CHR ''S'', 0), (CHR ''C'', 0)]),
             (''bar'', [(CHR ''W'', 0), (CHR ''P'', 0), (CHR ''S'', 0), (CHR ''C'', 12)])]
          = Inr (''total:''
                 # counts_line (\<lambda>ch. dec (if ch = CHR ''W'' then 2 else if ch = CHR ''C'' then 12 else 0))
                 # concat (map (\<lambda>name. [name @ '':'',
                      counts_line (\<lambda>ch. dec (if name = ''zoo'' then (if ch = CHR ''W'' then 2 else 0)
                                               else (if ch = CHR ''C'' then 12 else 0)))]) names))
        \<and> sorted_wrt (<) names
        \<and> set names = fst ` set [(''zoo'', [(CHR ''W'', 2), (CHR ''P'', 0), (CHR ''S'', 0), (CHR ''C'', 0)]),
             (''bar'', [(CHR ''W'', 0), (CHR ''P'', 0), (CHR ''S'', 0), (CHR ''C'', 12 :: int)])])"
proof -
  let ?T = "[(CHR ''W'', 2), (CHR ''P'', 0), (CHR ''S'', 0), (CHR ''C'', 12 :: int)]"
  let ?RC = "[(''zoo'', [(CHR ''W'', 2), (CHR ''P'', 0), (CHR ''S'', 0), (CHR ''C'', 0)]),
         (''bar'', [(CHR ''W'', 0), (CHR ''P'', 0), (CHR ''S'', 0), (CHR ''C'', 12 :: int)])]"
  let ?t = "\<lambda>ch. if ch = CHR ''W'' then 2 else if ch = CHR ''C'' then 12 else (0 :: int)"
  let ?rc = "\<lambda>name ch. if name = ''zoo'' then (if ch = CHR ''W'' then 2 else 0)
                                      else (if ch = CHR ''C'' then 12 else (0 :: int))"
  have h1: "distinct (map fst ?RC)" by simp
  have h2: "\<forall>ch \<in> set CHAIR_TYPES. map_of ?T ch = Some (?t ch)"
    by (simp add: CHAIR_TYPES_def)
  have h3: "\<forall>(name, counts) \<in> set ?RC. \<forall>ch \<in> set CHAIR_TYPES. map_of counts ch = Some (?rc name ch)"
    by (simp add: CHAIR_TYPES_def)
  have e: "report ?T ?RC
     = Inr [''total:'', ''W: 2, P: 0, S: 0, C: 12'',
            ''bar:'', ''W: 0, P: 0, S: 0, C: 12'',
            ''zoo:'', ''W: 2, P: 0, S: 0, C: 0'']"
    by code_simp
  show ?thesis using e report_layout [OF h1 h2 h3] by (rule conjI)
qed

section \<open>Facts about the Region Labeler\<close>


lemma in_bounds_set2: "in_bounds (set2 L p v) q = in_bounds L q"
  by (cases "fst p < length L") (auto simp: in_bounds_def set2_def nth_list_update)

lemma get2_set2_same: "in_bounds L p \<Longrightarrow> get2 (set2 L p v) p = v"
  by (simp add: get2_def set2_def in_bounds_def)

lemma get2_set2_other: "q \<noteq> p \<Longrightarrow> get2 (set2 L p v) q = get2 L q"
  by (cases p; cases q; cases "fst p < length L")
     (auto simp: get2_def set2_def nth_list_update list_update_beyond)

lemma length_set2: "map length (set2 L p v) = map length L"
  by (cases "fst p < length L") (auto simp: set2_def map_update list_update_same_conv list_update_beyond)

lemma in_bounds_shape: "map length A = map length B \<Longrightarrow> in_bounds A p = in_bounds B p"
proof -
  assume a: "map length A = map length B"
  then have l: "length A = length B" using map_eq_imp_length_eq by blast
  have "length (A ! i) = length (B ! i)" if "i < length A" for i
    using a that l by (metis nth_map)
  then show ?thesis using l by (auto simp: in_bounds_def)
qed

lemma set_positions: "set (positions g) = {p. in_bounds g p}"
  by (force simp: positions_def in_bounds_def)

lemma nbrs4_adj4: "q \<in> set (nbrs4 p) \<longleftrightarrow> adj4 p q"
  by (cases p; cases q) (auto simp: nbrs4_def adj4_def)

lemma adj4_sym: "adj4 p q \<Longrightarrow> adj4 q p"
  by (auto simp: adj4_def)

lemma sym_step4: "sym (step4 M)"
  by (auto simp: sym_def step4_def adj4_sym)

lemma step4_rtrancl_sym: "(p, q) \<in> (step4 M)\<^sup>* \<Longrightarrow> (q, p) \<in> (step4 M)\<^sup>*"
  using sym_rtrancl [OF sym_step4, of M] by (rule symD)

lemma flood_shape: "map length (flood M L Q k) = map length L"
  by (induction M L Q k rule: flood.induct) (auto simp: length_set2)

lemma flood_frame:
  "get2 (flood M L Q k) q = get2 L q \<or> (unlabelled M L q \<and> get2 (flood M L Q k) q = k)"
proof (induction M L Q k rule: flood.induct)
  case (1 M L k)
  then show ?case by simp
next
  case (2 M L p queue k)
  show ?case
  proof (cases "unlabelled M L p \<and> k \<noteq> 0")
    case True
    let ?L = "set2 L p k"
    have ih: "get2 (flood M ?L (queue @ nbrs4 p) k) q = get2 ?L q
        \<or> (unlabelled M ?L q \<and> get2 (flood M ?L (queue @ nbrs4 p) k) q = k)"
      using "2.IH"(1) [OF True] .
    have r: "flood M L (p # queue) k = flood M ?L (queue @ nbrs4 p) k" using True by simp
    show ?thesis
    proof (cases "q = p")
      case qp: True
      have "get2 ?L p = k" using True by (simp add: get2_set2_same unlabelled_def)
      then show ?thesis using ih True qp r by auto
    next
      case False
      then have "get2 ?L q = get2 L q" by (rule get2_set2_other)
      moreover have "unlabelled M ?L q \<Longrightarrow> unlabelled M L q"
        using False by (simp add: unlabelled_def in_bounds_set2 get2_set2_other)
      ultimately show ?thesis using ih r by auto
    qed
  next
    case False
    then show ?thesis using "2.IH"(2) by auto
  qed
qed

lemma flood_keeps: "get2 L q \<noteq> 0 \<Longrightarrow> get2 (flood M L Q k) q = get2 L q"
  using flood_frame [of M L Q k q] by (auto simp: unlabelled_def)

lemma flood_sound:
  "get2 (flood M L Q k) q \<noteq> get2 L q \<Longrightarrow> \<exists>p \<in> set Q. (p, q) \<in> (step4 M)\<^sup>*"
proof (induction M L Q k rule: flood.induct)
  case (1 M L k)
  then show ?case by simp
next
  case (2 M L p queue k)
  show ?case
  proof (cases "unlabelled M L p \<and> k \<noteq> 0")
    case True
    let ?L = "set2 L p k"
    have r: "flood M L (p # queue) k = flood M ?L (queue @ nbrs4 p) k" using True by simp
    show ?thesis
    proof (cases "q = p")
      case qp: True
      then show ?thesis by auto
    next
      case False
      then have "get2 ?L q = get2 L q" by (rule get2_set2_other)
      with "2.prems" r have "get2 (flood M ?L (queue @ nbrs4 p) k) q \<noteq> get2 ?L q" by simp
      from "2.IH"(1) [OF True this] obtain p' where
        p': "p' \<in> set (queue @ nbrs4 p)" "(p', q) \<in> (step4 M)\<^sup>*" by blast
      show ?thesis
      proof (cases "p' \<in> set queue")
        case True
        then show ?thesis using p'(2) by auto
      next
        case False
        then have adj: "adj4 p p'" using p'(1) by (simp add: nbrs4_adj4)
        have wq: "walk M q"
          using flood_frame [of M L "p # queue" k q] "2.prems" by (auto simp: unlabelled_def walk_def)
        have wp: "walk M p" using True by (simp add: unlabelled_def walk_def)
        have wp': "walk M p'"
          using p'(2) wq by (cases rule: converse_rtranclE) (auto simp: step4_def)
        have "(p, p') \<in> step4 M" using wp wp' adj by (simp add: step4_def)
        then have "(p, q) \<in> (step4 M)\<^sup>*" using p'(2) by simp
        then show ?thesis by auto
      qed
    qed
  next
    case False
    then have "flood M L (p # queue) k = flood M L queue k" by auto
    with "2.prems" "2.IH"(2) [OF False] show ?thesis by auto
  qed
qed

text \<open>
  When the queue is exhausted, every walkable neighbour of a cell that carries the label
  is labelled: a cell marked by the fill has pushed its neighbours, and a popped cell is
  labelled or gets marked.
\<close>

lemma flood_closed:
  assumes "k \<noteq> 0" and "map length L = map length M"
    and "\<forall>x y. walk M x \<and> get2 L x = k \<and> adj4 x y \<and> walk M y \<longrightarrow> get2 L y \<noteq> 0 \<or> y \<in> set Q"
  shows "\<forall>x y. walk M x \<and> get2 (flood M L Q k) x = k \<and> adj4 x y \<and> walk M y
           \<longrightarrow> get2 (flood M L Q k) y \<noteq> 0"
  using assms
proof (induction M L Q k rule: flood.induct)
  case (1 M L k)
  then show ?case by simp
next
  case (2 M L p queue k)
  show ?case
  proof (cases "unlabelled M L p \<and> k \<noteq> 0")
    case True
    let ?L = "set2 L p k"
    have r: "flood M L (p # queue) k = flood M ?L (queue @ nbrs4 p) k" using True by simp
    have shape: "map length ?L = map length M" using "2.prems"(2) by (simp add: length_set2)
    have pk: "get2 ?L p = k" using True by (simp add: get2_set2_same unlabelled_def)
    have inv: "\<forall>x y. walk M x \<and> get2 ?L x = k \<and> adj4 x y \<and> walk M y
        \<longrightarrow> get2 ?L y \<noteq> 0 \<or> y \<in> set (queue @ nbrs4 p)"
    proof (intro allI impI)
      fix x y
      assume a: "walk M x \<and> get2 ?L x = k \<and> adj4 x y \<and> walk M y"
      show "get2 ?L y \<noteq> 0 \<or> y \<in> set (queue @ nbrs4 p)"
      proof (cases "x = p")
        case True
        then show ?thesis using a by (simp add: nbrs4_adj4)
      next
        case False
        then have "get2 L x = k" using a by (simp add: get2_set2_other)
        with a "2.prems"(3) have old: "get2 L y \<noteq> 0 \<or> y \<in> set (p # queue)" by blast
        show ?thesis
        proof (cases "y = p")
          case True
          then show ?thesis using pk "2.prems"(1) by simp
        next
          case False
          then show ?thesis using old by (auto simp: get2_set2_other)
        qed
      qed
    qed
    show ?thesis unfolding r by (rule "2.IH"(1) [OF True "2.prems"(1) shape inv])
  next
    case False
    then have np: "\<not> unlabelled M L p" using "2.prems"(1) by simp
    have r: "flood M L (p # queue) k = flood M L queue k" using False by auto
    have inv: "\<forall>x y. walk M x \<and> get2 L x = k \<and> adj4 x y \<and> walk M y
        \<longrightarrow> get2 L y \<noteq> 0 \<or> y \<in> set queue"
    proof (intro allI impI)
      fix x y
      assume a: "walk M x \<and> get2 L x = k \<and> adj4 x y \<and> walk M y"
      with "2.prems"(3) have old: "get2 L y \<noteq> 0 \<or> y \<in> set (p # queue)" by blast
      show "get2 L y \<noteq> 0 \<or> y \<in> set queue"
      proof (cases "y = p")
        case True
        then have "in_bounds M p" "get2 M p" using a by (simp_all add: walk_def)
        moreover have "in_bounds L p" using \<open>in_bounds M p\<close> in_bounds_shape [OF "2.prems"(2)] by simp
        ultimately have "get2 L p \<noteq> 0" using np by (auto simp: unlabelled_def)
        then show ?thesis using True by simp
      next
        case False
        then show ?thesis using old by auto
      qed
    qed
    show ?thesis unfolding r by (rule "2.IH"(2) [OF False "2.prems"(1,2) inv])
  qed
qed

text \<open>
  The fill from an unlabelled seed with a fresh label, over a labelling whose labelled
  cells are closed under adjacency, labels exactly the cells connected to the seed.
\<close>

lemma flood_component:
  assumes k: "k \<noteq> 0" and shape: "map length L = map length M"
    and seed: "unlabelled M L s"
    and fresh: "\<forall>q. walk M q \<longrightarrow> get2 L q \<noteq> k"
    and closed: "\<forall>x y. walk M x \<and> walk M y \<and> adj4 x y \<and> get2 L x \<noteq> 0 \<longrightarrow> get2 L y \<noteq> 0"
    and wq: "walk M q"
  shows "get2 (flood M L [s] k) q = k \<longleftrightarrow> (s, q) \<in> (step4 M)\<^sup>*"
proof
  let ?R = "flood M L [s] k"
  assume a: "get2 ?R q = k"
  have "get2 L q \<noteq> k" using fresh wq by blast
  with a have "get2 ?R q \<noteq> get2 L q" by metis
  from flood_sound [OF this] show "(s, q) \<in> (step4 M)\<^sup>*" by simp
next
  let ?R = "flood M L [s] k"
  have inv0: "\<forall>x y. walk M x \<and> get2 L x = k \<and> adj4 x y \<and> walk M y \<longrightarrow> get2 L y \<noteq> 0 \<or> y \<in> set [s]"
    using fresh by blast
  have cl: "\<forall>x y. walk M x \<and> get2 ?R x = k \<and> adj4 x y \<and> walk M y \<longrightarrow> get2 ?R y \<noteq> 0"
    by (rule flood_closed [OF k shape inv0])
  have sk: "get2 ?R s = k"
  proof -
    have "?R = flood M (set2 L s k) ([] @ nbrs4 s) k" using seed k by simp
    moreover have "get2 (set2 L s k) s = k" using seed by (simp add: get2_set2_same unlabelled_def)
    ultimately show ?thesis using flood_keeps [of "set2 L s k" s M "[] @ nbrs4 s" k] k by simp
  qed
  assume "(s, q) \<in> (step4 M)\<^sup>*"
  then show "get2 ?R q = k"
  proof (induction rule: rtrancl_induct)
    case base
    then show ?case by (rule sk)
  next
    case (step x y)
    have w: "walk M x" "walk M y" "adj4 x y" using step.hyps(2) by (auto simp: step4_def)
    have ny: "get2 ?R y \<noteq> 0" using cl w step.IH by blast
    show ?case
    proof (rule ccontr)
      assume neq: "get2 ?R y \<noteq> k"
      then have "get2 ?R y = get2 L y" using flood_frame [of M L "[s]" k y] by auto
      then have "get2 L y \<noteq> 0" using ny by simp
      then have "get2 L x \<noteq> 0" using closed w adj4_sym by blast
      then have "get2 ?R x = get2 L x" by (rule flood_keeps)
      then show False using step.IH fresh w(1) by auto
    qed
  qed
qed

lemma scan_inv_flood:
  assumes inv: "scan_inv M L n" and seed: "unlabelled M L s"
  shows "scan_inv M (flood M L [s] n) (n + 1)"
proof -
  let ?R = "flood M L [s] n"
  from inv have shape: "map length L = map length M" and n: "0 < n"
    and range: "\<And>p. in_bounds M p \<Longrightarrow> 0 \<le> get2 L p \<and> get2 L p < n"
    and lw: "\<And>p. in_bounds M p \<Longrightarrow> get2 L p \<noteq> 0 \<Longrightarrow> get2 M p"
    and cls: "\<And>p q. walk M p \<Longrightarrow> walk M q \<Longrightarrow> get2 L p \<noteq> 0
                \<Longrightarrow> (get2 L q = get2 L p \<longleftrightarrow> (p, q) \<in> (step4 M)\<^sup>*)"
    and used: "\<And>l. 0 < l \<Longrightarrow> l < n \<Longrightarrow> \<exists>q. walk M q \<and> get2 L q = l"
    unfolding scan_inv_def by blast+
  have k: "n \<noteq> 0" using n by simp
  have fresh: "\<forall>q. walk M q \<longrightarrow> get2 L q \<noteq> n"
    using range by (fastforce simp: walk_def)
  have closed: "\<forall>x y. walk M x \<and> walk M y \<and> adj4 x y \<and> get2 L x \<noteq> 0 \<longrightarrow> get2 L y \<noteq> 0"
  proof (intro allI impI)
    fix x y assume a: "walk M x \<and> walk M y \<and> adj4 x y \<and> get2 L x \<noteq> 0"
    then have "(x, y) \<in> (step4 M)\<^sup>*" by (auto simp: step4_def)
    with cls [of x y] a show "get2 L y \<noteq> 0" by auto
  qed
  have comp: "get2 ?R q = n \<longleftrightarrow> (s, q) \<in> (step4 M)\<^sup>*" if "walk M q" for q
    by (rule flood_component [OF k shape seed fresh closed that])
  have frame: "get2 ?R q = get2 L q \<or> (unlabelled M L q \<and> get2 ?R q = n)" for q
    by (rule flood_frame)
  have c1: "map length ?R = map length M" using shape by (simp only: flood_shape)
  have c2: "0 < n + 1" using n by simp
  have c3: "\<forall>p. in_bounds M p \<longrightarrow> 0 \<le> get2 ?R p \<and> get2 ?R p < n + 1"
  proof (intro allI impI)
    fix p assume "in_bounds M p"
    from range [OF this] frame [of p] n show "0 \<le> get2 ?R p \<and> get2 ?R p < n + 1" by auto
  qed
  have c4: "\<forall>p. in_bounds M p \<and> get2 ?R p \<noteq> 0 \<longrightarrow> get2 M p"
  proof (intro allI impI)
    fix p assume a: "in_bounds M p \<and> get2 ?R p \<noteq> 0"
    from frame [of p] show "get2 M p"
    proof
      assume "get2 ?R p = get2 L p"
      then show ?thesis using a lw by metis
    next
      assume "unlabelled M L p \<and> get2 ?R p = n"
      then show ?thesis by (simp add: unlabelled_def)
    qed
  qed
  have c5: "\<forall>p q. walk M p \<and> walk M q \<and> get2 ?R p \<noteq> 0
      \<longrightarrow> (get2 ?R q = get2 ?R p \<longleftrightarrow> (p, q) \<in> (step4 M)\<^sup>*)"
  proof (intro allI impI)
    fix p q assume a: "walk M p \<and> walk M q \<and> get2 ?R p \<noteq> 0"
    then have wp: "walk M p" and wq: "walk M q" and np: "get2 ?R p \<noteq> 0" by blast+
    show "get2 ?R q = get2 ?R p \<longleftrightarrow> (p, q) \<in> (step4 M)\<^sup>*"
    proof (cases "get2 ?R p = n")
      case True
      then have sp: "(s, p) \<in> (step4 M)\<^sup>*" using comp [OF wp] by simp
      have "(s, q) \<in> (step4 M)\<^sup>* \<longleftrightarrow> (p, q) \<in> (step4 M)\<^sup>*"
        using sp step4_rtrancl_sym [OF sp] by (meson rtrancl_trans)
      then show ?thesis using True comp [OF wq] by metis
    next
      case False
      then have pl: "get2 ?R p = get2 L p" using frame [of p] by blast
      then have lp: "get2 L p \<noteq> 0" using np by metis
      have nsp: "(s, p) \<notin> (step4 M)\<^sup>*" using False comp [OF wp] by simp
      show ?thesis
      proof (cases "get2 ?R q = n")
        case True
        then have sq: "(s, q) \<in> (step4 M)\<^sup>*" using comp [OF wq] by simp
        have "(p, q) \<notin> (step4 M)\<^sup>*"
        proof
          assume "(p, q) \<in> (step4 M)\<^sup>*"
          then have "(q, p) \<in> (step4 M)\<^sup>*" by (rule step4_rtrancl_sym)
          with sq have "(s, p) \<in> (step4 M)\<^sup>*" by (rule rtrancl_trans)
          with nsp show False by simp
        qed
        then show ?thesis using True False by metis
      next
        case nq: False
        then have "get2 ?R q = get2 L q" using frame [of q] by blast
        then show ?thesis using pl cls [OF wp wq lp] by metis
      qed
    qed
  qed
  have c6: "\<forall>l. 0 < l \<and> l < n + 1 \<longrightarrow> (\<exists>q. walk M q \<and> get2 ?R q = l)"
  proof (intro allI impI)
    fix l :: int assume a: "0 < l \<and> l < n + 1"
    show "\<exists>q. walk M q \<and> get2 ?R q = l"
    proof (cases "l = n")
      case True
      have ws: "walk M s" using seed by (simp add: unlabelled_def walk_def)
      have "get2 ?R s = n" using comp [OF ws] by simp
      then show ?thesis using ws True by metis
    next
      case False
      then have "0 < l" "l < n" using a by auto
      from used [OF this] obtain q where q: "walk M q" "get2 L q = l" by blast
      then have "get2 L q \<noteq> 0" using \<open>0 < l\<close> by simp
      then have "get2 ?R q = get2 L q" by (rule flood_keeps)
      then show ?thesis using q by metis
    qed
  qed
  show ?thesis unfolding scan_inv_def using c1 c2 c3 c4 c5 c6 by blast
qed

lemma scan_inv_component:
  assumes inv: "scan_inv M L n" and seed: "unlabelled M L s" and wq: "walk M q"
  shows "get2 (flood M L [s] n) q = n \<longleftrightarrow> (s, q) \<in> (step4 M)\<^sup>*"
proof -
  from inv have shape: "map length L = map length M" and n: "0 < n"
    and range: "\<And>p. in_bounds M p \<Longrightarrow> 0 \<le> get2 L p \<and> get2 L p < n"
    and cls: "\<And>p q. walk M p \<Longrightarrow> walk M q \<Longrightarrow> get2 L p \<noteq> 0
                \<Longrightarrow> (get2 L q = get2 L p \<longleftrightarrow> (p, q) \<in> (step4 M)\<^sup>*)"
    unfolding scan_inv_def by blast+
  have k: "n \<noteq> 0" using n by simp
  have fresh: "\<forall>q. walk M q \<longrightarrow> get2 L q \<noteq> n"
    using range by (fastforce simp: walk_def)
  have closed: "\<forall>x y. walk M x \<and> walk M y \<and> adj4 x y \<and> get2 L x \<noteq> 0 \<longrightarrow> get2 L y \<noteq> 0"
  proof (intro allI impI)
    fix x y assume a: "walk M x \<and> walk M y \<and> adj4 x y \<and> get2 L x \<noteq> 0"
    then have "(x, y) \<in> (step4 M)\<^sup>*" by (auto simp: step4_def)
    with cls [of x y] a show "get2 L y \<noteq> 0" by auto
  qed
  show ?thesis by (rule flood_component [OF k shape seed fresh closed wq])
qed

lemma scan_inv_unlabelled:
  assumes "scan_inv M L n" and "walk M p" and "\<not> unlabelled M L p"
  shows "get2 L p \<noteq> 0"
proof -
  have "map length L = map length M" using assms(1) by (simp add: scan_inv_def)
  then have "in_bounds L p = in_bounds M p" by (rule in_bounds_shape)
  then show ?thesis using assms(2,3) by (auto simp: unlabelled_def walk_def)
qed

text \<open>
  The scan keeps the invariant, never changes a label once given, and labels every
  walkable cell it visits.
\<close>

lemma scan_result:
  assumes "scan_inv M L n"
  shows "\<exists>n'. n \<le> n' \<and> scan_inv M (scan M ps L n) n'
     \<and> (\<forall>q. get2 L q \<noteq> 0 \<longrightarrow> get2 (scan M ps L n) q = get2 L q)
     \<and> (\<forall>p \<in> set ps. walk M p \<longrightarrow> get2 (scan M ps L n) p \<noteq> 0)"
  using assms
proof (induction ps arbitrary: L n)
  case Nil
  then show ?case by auto
next
  case (Cons p ps)
  show ?case
  proof (cases "unlabelled M L p")
    case True
    let ?L = "flood M L [p] n"
    let ?R = "scan M ps ?L (n + 1)"
    have r: "scan M (p # ps) L n = ?R" using True by simp
    have inv: "scan_inv M ?L (n + 1)" by (rule scan_inv_flood [OF Cons.prems True])
    from Cons.IH [OF inv] obtain n' where
      ih: "n + 1 \<le> n'" "scan_inv M ?R n'"
        "\<forall>q. get2 ?L q \<noteq> 0 \<longrightarrow> get2 ?R q = get2 ?L q"
        "\<forall>p \<in> set ps. walk M p \<longrightarrow> get2 ?R p \<noteq> 0" by blast
    have keep: "\<forall>q. get2 L q \<noteq> 0 \<longrightarrow> get2 ?R q = get2 L q"
    proof (intro allI impI)
      fix q assume a: "get2 L q \<noteq> 0"
      then have "get2 ?L q = get2 L q" by (rule flood_keeps)
      then show "get2 ?R q = get2 L q" using a ih(3) by metis
    qed
    have wp: "walk M p" using True by (simp add: unlabelled_def walk_def)
    have "0 < n" using Cons.prems by (simp add: scan_inv_def)
    moreover have "get2 ?L p = n" using scan_inv_component [OF Cons.prems True wp] by simp
    ultimately have "get2 ?L p \<noteq> 0" by simp
    then have "get2 ?R p \<noteq> 0" using ih(3) by metis
    then have all: "\<forall>x \<in> set (p # ps). walk M x \<longrightarrow> get2 ?R x \<noteq> 0" using ih(4) by simp
    have "n \<le> n'" using ih(1) by simp
    then show ?thesis unfolding r using ih(2) keep all by blast
  next
    case False
    let ?R = "scan M ps L n"
    have r: "scan M (p # ps) L n = ?R" using False by simp
    from Cons.IH [OF Cons.prems] obtain n' where
      ih: "n \<le> n'" "scan_inv M ?R n'"
        "\<forall>q. get2 L q \<noteq> 0 \<longrightarrow> get2 ?R q = get2 L q"
        "\<forall>p \<in> set ps. walk M p \<longrightarrow> get2 ?R p \<noteq> 0" by blast
    have "get2 ?R p \<noteq> 0" if "walk M p"
      using scan_inv_unlabelled [OF Cons.prems that False] ih(3) by metis
    then have all: "\<forall>x \<in> set (p # ps). walk M x \<longrightarrow> get2 ?R x \<noteq> 0" using ih(4) by simp
    show ?thesis unfolding r using ih(1,2,3) all by blast
  qed
qed

lemma scan_inv_init: "scan_inv M (map (map (\<lambda>_. 0)) M) 1"
proof -
  have z: "get2 (map (map (\<lambda>_. 0 :: int)) M) p = 0" if "in_bounds M p" for p
    using that by (simp add: get2_def in_bounds_def)
  have s: "map length (map (map (\<lambda>_. 0 :: int)) M) = map length M" by simp
  show ?thesis unfolding scan_inv_def using z s by (auto simp: walk_def)
qed

text \<open>The result of the Region Labeler satisfies the invariant and labels every walkable cell.\<close>

lemma region_label_inv:
  "\<exists>n. scan_inv M (region_label M) n \<and> (\<forall>p. walk M p \<longrightarrow> get2 (region_label M) p \<noteq> 0)"
proof -
  from scan_result [OF scan_inv_init, of M "positions M"] obtain n where
    n: "scan_inv M (region_label M) n"
      "\<forall>p \<in> set (positions M). walk M p \<longrightarrow> get2 (region_label M) p \<noteq> 0"
    unfolding region_label_def by blast
  have "get2 (region_label M) p \<noteq> 0" if "walk M p" for p
  proof -
    have "p \<in> set (positions M)" using that by (simp add: set_positions walk_def)
    with n(2) that show ?thesis by blast
  qed
  then show ?thesis using n(1) by blast
qed

lemma scan_invD:
  assumes "scan_inv M L n"
  shows "map length L = map length M" and "0 < n"
    and "in_bounds M p \<Longrightarrow> 0 \<le> get2 L p" and "in_bounds M p \<Longrightarrow> get2 L p < n"
    and "in_bounds M p \<Longrightarrow> get2 L p \<noteq> 0 \<Longrightarrow> get2 M p"
    and "walk M p \<Longrightarrow> walk M q \<Longrightarrow> get2 L p \<noteq> 0
           \<Longrightarrow> (get2 L q = get2 L p) = ((p, q) \<in> (step4 M)\<^sup>*)"
    and "0 < l \<Longrightarrow> l < n \<Longrightarrow> \<exists>q. walk M q \<and> get2 L q = l"
  using assms unfolding scan_inv_def by blast+

lemma region_label_shape: "map length (region_label M) = map length M"
  using region_label_inv [of M] by (auto simp: scan_inv_def)

lemma region_label_positive: "walk M p \<Longrightarrow> 0 < get2 (region_label M) p"
proof -
  assume w: "walk M p"
  from region_label_inv [of M] obtain n where
    n: "scan_inv M (region_label M) n" "get2 (region_label M) p \<noteq> 0" using w by blast
  have "in_bounds M p" using w by (simp add: walk_def)
  then have "0 \<le> get2 (region_label M) p" using scan_invD(3) [OF n(1)] by blast
  with n(2) show ?thesis by simp
qed

lemma length_walkable: "map length (walkable g) = map length g"
  by (simp add: walkable_def)

lemma in_bounds_walkable: "in_bounds (walkable g) p = in_bounds g p"
  by (rule in_bounds_shape [OF length_walkable])

lemma get2_walkable: "in_bounds g p \<Longrightarrow> get2 (walkable g) p = (get2 g p \<notin> WALL_CHARS)"
  by (simp add: walkable_def get2_def in_bounds_def)

section \<open>Claims about the Region Labeler\<close>

text \<open>
  C1: for every walkable mask, the label grid of the Region Labeler has the shape of the
  mask, maps every non-walkable cell to 0 and every walkable cell to a positive integer,
  and gives two walkable cells the same label if and only if a path of walkable cells
  joins them whose consecutive cells differ by one step up, down, left or right
  (\<open>adj4\<close>; a diagonal step is not one).
\<close>

theorem region_label_components:
  "map length (region_label wmask) = map length wmask
   \<and> (\<forall>p. in_bounds wmask p \<and> \<not> get2 wmask p \<longrightarrow> get2 (region_label wmask) p = 0)
   \<and> (\<forall>p. in_bounds wmask p \<and> get2 wmask p \<longrightarrow> 0 < get2 (region_label wmask) p)
   \<and> (\<forall>p q. walk wmask p \<and> walk wmask q
         \<longrightarrow> (get2 (region_label wmask) p = get2 (region_label wmask) q \<longleftrightarrow> connected4 wmask p q))"
proof -
  let ?R = "region_label wmask"
  from region_label_inv [of wmask] obtain n where
    inv: "scan_inv wmask ?R n" and lab: "\<forall>p. walk wmask p \<longrightarrow> get2 ?R p \<noteq> 0" by blast
  have c1: "map length ?R = map length wmask" by (rule region_label_shape)
  have c2: "\<forall>p. in_bounds wmask p \<and> \<not> get2 wmask p \<longrightarrow> get2 ?R p = 0"
    using inv unfolding scan_inv_def by blast
  have c3: "\<forall>p. in_bounds wmask p \<and> get2 wmask p \<longrightarrow> 0 < get2 ?R p"
    using region_label_positive [of wmask] by (simp add: walk_def)
  have c4: "\<forall>p q. walk wmask p \<and> walk wmask q
         \<longrightarrow> (get2 ?R p = get2 ?R q \<longleftrightarrow> connected4 wmask p q)"
  proof (intro allI impI)
    fix p q assume a: "walk wmask p \<and> walk wmask q"
    then have "get2 ?R p \<noteq> 0" using lab by blast
    moreover have "\<forall>p q. walk wmask p \<and> walk wmask q \<and> get2 ?R p \<noteq> 0
             \<longrightarrow> (get2 ?R q = get2 ?R p \<longleftrightarrow> (p, q) \<in> (step4 wmask)\<^sup>*)"
      using inv unfolding scan_inv_def by blast
    ultimately have "get2 ?R q = get2 ?R p \<longleftrightarrow> (p, q) \<in> (step4 wmask)\<^sup>*" using a by blast
    then show "get2 ?R p = get2 ?R q \<longleftrightarrow> connected4 wmask p q"
      unfolding connected4_def by metis
  qed
  show ?thesis using c1 c2 c3 c4 by blast
qed

theorem region_label_components_witness:
  "get2 (region_label [[True, False], [False, True]]) (0, 1) = 0
   \<and> 0 < get2 (region_label [[True, False], [False, True]]) (0, 0)
   \<and> (get2 (region_label [[True, False], [False, True]]) (0, 0)
        = get2 (region_label [[True, False], [False, True]]) (1, 1)
      \<longleftrightarrow> connected4 [[True, False], [False, True]] (0, 0) (1, 1))"
proof -
  let ?M = "[[True, False], [False, True]]"
  have h1: "in_bounds ?M (0, 1) \<and> \<not> get2 ?M (0, 1)" by (simp add: in_bounds_def get2_def)
  have h2: "in_bounds ?M (0, 0) \<and> get2 ?M (0, 0)" by (simp add: in_bounds_def get2_def)
  have h3: "walk ?M (0, 0) \<and> walk ?M (1, 1)" by (simp add: walk_def in_bounds_def get2_def)
  show ?thesis using region_label_components [of ?M] h1 h2 h3 by blast
qed

text \<open>
  C8: for every grid, the Region Labeler returns a label grid of the shape of the grid,
  and the Chair Aggregator, run on the grid, that label grid and the rooms found in the
  grid, returns totals and per-room counts without raising; so does a run with no rooms.
  The grid may have no walkable cell and no room.
\<close>

theorem pipeline_total:
  "map length (region_label (walkable room_array)) = map length room_array
   \<and> (\<exists>totals room_counts.
        count_chairs room_array (region_label (walkable room_array)) (find_rooms room_array)
          = Inr (totals, room_counts))
   \<and> (\<exists>totals room_counts.
        count_chairs room_array (region_label (walkable room_array)) [] = Inr (totals, room_counts))"
proof -
  let ?L = "region_label (walkable room_array)"
  have shape: "map length ?L = map length room_array"
    by (simp add: region_label_shape length_walkable)
  have inb: "\<forall>(name, p) \<in> set (find_rooms room_array). in_bounds ?L p"
  proof (clarify)
    fix name r c assume "(name, (r, c)) \<in> set (find_rooms room_array)"
    from find_rooms_cell [OF this] have "in_bounds room_array (r, c)"
      by (auto simp: in_bounds_def)
    then show "in_bounds ?L (r, c)" using in_bounds_shape [OF shape] by simp
  qed
  have "\<exists>totals room_counts. count_chairs room_array ?L (find_rooms room_array) = Inr (totals, room_counts)"
    using count_chairs_result [OF find_rooms_distinct inb shape] by blast
  moreover have "\<exists>totals room_counts. count_chairs room_array ?L [] = Inr (totals, room_counts)"
    by (simp add: count_chairs_def)
  ultimately show ?thesis using shape by blast
qed

text \<open>
  C9: for every grid, every anchor recorded by the Room Locator is a cell of the grid
  that holds the opening parenthesis, which is not a wall glyph; so the anchor is
  walkable and its label in the label grid of the walkable mask is positive.
\<close>

theorem find_rooms_anchor_walkable:
  assumes "(name, p) \<in> set (find_rooms grid)"
  shows "in_bounds grid p \<and> get2 grid p = CHR ''('' \<and> get2 grid p \<notin> WALL_CHARS
     \<and> walk (walkable grid) p \<and> 0 < get2 (region_label (walkable grid)) p"
proof -
  obtain r c where p: "p = (r, c)" by (cases p)
  from find_rooms_cell [of name r c grid] assms p
  have cell: "in_bounds grid p" "get2 grid p = CHR ''(''"
    by (auto simp: in_bounds_def get2_def)
  have nw: "get2 grid p \<notin> WALL_CHARS" using cell(2) by (simp add: WALL_CHARS_def)
  have w: "walk (walkable grid) p"
    using cell(1) nw by (simp add: walk_def in_bounds_walkable get2_walkable)
  show ?thesis using cell nw w region_label_positive [OF w] by simp
qed

theorem find_rooms_anchor_walkable_witness:
  "(''a'', (0, 1)) \<in> set (find_rooms [''|(a) W|''])
     \<and> in_bounds [''|(a) W|''] (0, 1) \<and> get2 [''|(a) W|''] (0, 1) = CHR ''(''
     \<and> get2 [''|(a) W|''] (0, 1) \<notin> WALL_CHARS
     \<and> walk (walkable [''|(a) W|'']) (0, 1) \<and> 0 < get2 (region_label (walkable [''|(a) W|''])) (0, 1)"
proof -
  have h: "(''a'', (0, 1)) \<in> set (find_rooms [''|(a) W|''])" by code_simp
  show ?thesis using h find_rooms_anchor_walkable [OF h] by (rule conjI)
qed

section \<open>The order in which labels are handed out\<close>

text \<open>
  The cells are scanned in row-major order, so the cells scanned before a cell are the
  cells of the grid that precede it in that order.
\<close>


lemma sorted_rows:
  "sorted_wrt before (concat (map (\<lambda>r. map (\<lambda>c. (r, c)) [0..<f r]) [0..<n]))"
proof (induction n)
  case 0
  then show ?case by simp
next
  case (Suc n)
  have row: "sorted_wrt before (map (\<lambda>c. (n, c)) [0..<f n])"
    by (simp add: sorted_wrt_map before_def)
  have cross: "\<forall>x \<in> set (concat (map (\<lambda>r. map (\<lambda>c. (r, c)) [0..<f r]) [0..<n])).
      \<forall>y \<in> set (map (\<lambda>c. (n, c)) [0..<f n]). before x y"
    by (auto simp: before_def)
  show ?case using Suc.IH row cross by (simp add: sorted_wrt_append)
qed

lemma sorted_positions: "sorted_wrt before (positions g)"
  unfolding positions_def by (rule sorted_rows)

lemma takeWhile_sorted_before:
  "sorted_wrt before xs \<Longrightarrow> q \<in> set xs \<Longrightarrow>
   set (takeWhile (\<lambda>y. y \<noteq> q) xs) = {x \<in> set xs. before x q}"
proof (induction xs)
  case Nil
  then show ?case by simp
next
  case (Cons x xs)
  have asym: "\<not> (before a b \<and> before b a)" for a b by (auto simp: before_def)
  have irr: "\<not> before a a" for a by (simp add: before_def)
  show ?case
  proof (cases "x = q")
    case True
    have "\<not> before y q" if "y \<in> set (x # xs)" for y
      using that Cons.prems(1) True asym [of q y] irr [of q] by auto
    then show ?thesis using True by auto
  next
    case False
    then have q: "q \<in> set xs" using Cons.prems(2) by simp
    have s: "sorted_wrt before xs" using Cons.prems(1) by simp
    have xq: "before x q" using Cons.prems(1) q by simp
    show ?thesis using Cons.IH [OF s q] False xq by auto
  qed
qed

lemma takeWhile_positions:
  "in_bounds M q \<Longrightarrow>
   set (takeWhile (\<lambda>y. y \<noteq> q) (positions M)) = {x. in_bounds M x \<and> before x q}"
  using takeWhile_sorted_before [OF sorted_positions, of q M] by (simp add: set_positions)

lemma scan_first:
  assumes "scan_inv M L n" and "\<forall>x. in_bounds M x \<longrightarrow> get2 L x = 0"
    and "q \<in> set ps" and "walk M q"
    and "\<forall>x \<in> set (takeWhile (\<lambda>y. y \<noteq> q) ps). \<not> walk M x"
  shows "get2 (scan M ps L n) q = n"
  using assms(3,5)
proof (induction ps)
  case Nil
  then show ?case by simp
next
  case (Cons p ps)
  show ?case
  proof (cases "p = q")
    case True
    have "in_bounds M q" using assms(4) by (simp add: walk_def)
    then have "get2 L q = 0" using assms(2) by blast
    then have u: "unlabelled M L q"
      using scan_inv_unlabelled [OF assms(1,4)] by blast
    let ?L = "flood M L [q] n"
    have r: "scan M (p # ps) L n = scan M ps ?L (n + 1)" using u True by simp
    have "get2 ?L q = n" using scan_inv_component [OF assms(1) u assms(4)] by simp
    moreover have "0 < n" using scan_invD(2) [OF assms(1)] .
    ultimately have "get2 ?L q \<noteq> 0" "get2 ?L q = n" by simp_all
    moreover have "scan_inv M ?L (n + 1)" by (rule scan_inv_flood [OF assms(1) u])
    from scan_result [OF this, of ps]
    have "\<forall>x. get2 ?L x \<noteq> 0 \<longrightarrow> get2 (scan M ps ?L (n + 1)) x = get2 ?L x" by blast
    ultimately show ?thesis unfolding r by metis
  next
    case False
    then have "\<not> walk M p" using Cons.prems(2) by simp
    then have "\<not> unlabelled M L p" by (auto simp: unlabelled_def walk_def)
    then have r: "scan M (p # ps) L n = scan M ps L n" by simp
    have "q \<in> set ps" using Cons.prems(1) False by simp
    moreover have "\<forall>x \<in> set (takeWhile (\<lambda>y. y \<noteq> q) ps). \<not> walk M x"
      using Cons.prems(2) False by simp
    ultimately show ?thesis unfolding r by (rule Cons.IH)
  qed
qed

text \<open>
  A cell that starts a new region during the scan gets a label that is at least the next
  label at the start of the scan and greater than the label of every cell scanned
  before it.
\<close>

lemma scan_order:
  assumes "scan_inv M L n" and "\<forall>x \<in> set ps. in_bounds M x" and "q \<in> set ps" and "walk M q"
    and "\<forall>x. walk M x \<and> get2 L x \<noteq> 0 \<longrightarrow> (x, q) \<notin> (step4 M)\<^sup>*"
    and "\<forall>x \<in> set (takeWhile (\<lambda>y. y \<noteq> q) ps). walk M x \<longrightarrow> (x, q) \<notin> (step4 M)\<^sup>*"
  shows "n \<le> get2 (scan M ps L n) q
     \<and> (\<forall>x \<in> set (takeWhile (\<lambda>y. y \<noteq> q) ps). get2 (scan M ps L n) x < get2 (scan M ps L n) q)"
  using assms(1,2,3,5,6)
proof (induction ps arbitrary: L n)
  case Nil
  then show ?case by simp
next
  case (Cons p ps)
  note inv = Cons.prems(1)
  have n0: "0 < n" using scan_invD(2) [OF inv] .
  show ?case
  proof (cases "p = q")
    case True
    have "get2 L q = 0" using Cons.prems(4) assms(4) by blast
    then have u: "unlabelled M L q"
      using scan_inv_unlabelled [OF inv assms(4)] by blast
    let ?L = "flood M L [q] n"
    have r: "scan M (p # ps) L n = scan M ps ?L (n + 1)" using u True by simp
    have "get2 ?L q = n" using scan_inv_component [OF inv u assms(4)] by simp
    then have "get2 ?L q \<noteq> 0" "get2 ?L q = n" using n0 by simp_all
    moreover have "scan_inv M ?L (n + 1)" by (rule scan_inv_flood [OF inv u])
    from scan_result [OF this, of ps]
    have "\<forall>x. get2 ?L x \<noteq> 0 \<longrightarrow> get2 (scan M ps ?L (n + 1)) x = get2 ?L x" by blast
    ultimately have "get2 (scan M (p # ps) L n) q = n" unfolding r by metis
    then show ?thesis using True by simp
  next
    case False
    then have qin: "q \<in> set ps" using Cons.prems(3) by simp
    have inb: "\<forall>x \<in> set ps. in_bounds M x" and pin: "in_bounds M p" using Cons.prems(2) by simp_all
    have tw: "takeWhile (\<lambda>y. y \<noteq> q) (p # ps) = p # takeWhile (\<lambda>y. y \<noteq> q) ps"
      using False by simp
    have p5: "\<forall>x \<in> set (p # takeWhile (\<lambda>y. y \<noteq> q) ps). walk M x \<longrightarrow> (x, q) \<notin> (step4 M)\<^sup>*"
      using Cons.prems(5) unfolding tw .
    have pre: "\<forall>x \<in> set (takeWhile (\<lambda>y. y \<noteq> q) ps). walk M x \<longrightarrow> (x, q) \<notin> (step4 M)\<^sup>*"
      using p5 by (meson list.set_intros(2))
    have pq: "walk M p \<longrightarrow> (p, q) \<notin> (step4 M)\<^sup>*"
      using p5 by (meson list.set_intros(1))
    define L2 where "L2 = (if unlabelled M L p then flood M L [p] n else L)"
    define n2 where "n2 = (if unlabelled M L p then n + 1 else n)"
    let ?R = "scan M ps L2 n2"
    have r: "scan M (p # ps) L n = ?R" by (simp add: L2_def n2_def)
    have inv2: "scan_inv M L2 n2"
      using inv scan_inv_flood [OF inv] by (simp add: L2_def n2_def)
    have nn2: "n \<le> n2" by (simp add: n2_def)
    have old2: "\<forall>x. walk M x \<and> get2 L2 x \<noteq> 0 \<longrightarrow> (x, q) \<notin> (step4 M)\<^sup>*"
    proof (intro allI impI)
      fix x assume a: "walk M x \<and> get2 L2 x \<noteq> 0"
      show "(x, q) \<notin> (step4 M)\<^sup>*"
      proof (cases "get2 L x \<noteq> 0")
        case True
        then show ?thesis using a Cons.prems(4) by blast
      next
        case lx: False
        then have u: "unlabelled M L p" using a by (auto simp: L2_def split: if_splits)
        then have l2: "L2 = flood M L [p] n" by (simp add: L2_def)
        have "get2 L2 x \<noteq> get2 L x" using a lx by simp
        then have "get2 (flood M L [p] n) x = n"
          using flood_frame [of M L "[p]" n x] l2 by metis
        then have px: "(p, x) \<in> (step4 M)\<^sup>*" using scan_inv_component [OF inv u] a by blast
        have wp: "walk M p" using u by (simp add: unlabelled_def walk_def)
        show ?thesis
        proof
          assume "(x, q) \<in> (step4 M)\<^sup>*"
          with px have "(p, q) \<in> (step4 M)\<^sup>*" by (rule rtrancl_trans)
          with pq wp show False by blast
        qed
      qed
    qed
    from Cons.IH [OF inv2 inb qin old2 pre]
    have ih: "n2 \<le> get2 ?R q" "\<forall>x \<in> set (takeWhile (\<lambda>y. y \<noteq> q) ps). get2 ?R x < get2 ?R q"
      by blast+
    from scan_result [OF inv2, of ps] obtain n' where
      res: "scan_inv M ?R n'" "\<forall>x. get2 L2 x \<noteq> 0 \<longrightarrow> get2 ?R x = get2 L2 x" by blast
    have n20: "0 < n2" using scan_invD(2) [OF inv2] .
    have "get2 ?R p < get2 ?R q"
    proof (cases "get2 L2 p \<noteq> 0")
      case True
      then have "get2 ?R p = get2 L2 p" using res(2) by blast
      moreover have "get2 L2 p < n2" using scan_invD(4) [OF inv2 pin] .
      ultimately show ?thesis using ih(1) by simp
    next
      case False
      have nw: "\<not> walk M p"
      proof
        assume wp: "walk M p"
        show False
        proof (cases "unlabelled M L p")
          case True
          then have "get2 L2 p = n" using scan_inv_component [OF inv True wp] by (simp add: L2_def)
          then show False using False n0 by simp
        next
          case nu: False
          then have "get2 L p \<noteq> 0" using scan_inv_unlabelled [OF inv wp] by blast
          then show False using False nu by (simp add: L2_def)
        qed
      qed
      then have "\<not> get2 M p" using pin by (simp add: walk_def)
      then have "get2 ?R p = 0" using scan_invD(5) [OF res(1) pin] by blast
      then show ?thesis using ih(1) n20 by simp
    qed
    then show ?thesis unfolding r tw using ih nn2 by simp
  qed
qed

lemma init_zero: "in_bounds M x \<Longrightarrow> get2 (map (map (\<lambda>_. 0 :: int)) M) x = 0"
  by (simp add: get2_def in_bounds_def)

lemma init_unlabelled: "walk M x \<Longrightarrow> get2 (map (map (\<lambda>_. 0 :: int)) M) x = 0"
  by (simp add: init_zero walk_def)

text \<open>
  C6: for every walkable mask, the labels of the Region Labeler are handed out in
  increasing order as regions are discovered by the row-major scan, starting at 1: every
  value from 1 up to a label in the grid is itself the label of a walkable cell, the
  first cell of a region gets a label greater than that of every cell before it in
  row-major order, and the first walkable cell of the grid gets the label 1. With C1
  this fixes every label value; the labeler is a function of the mask alone, so labelling
  the same mask twice gives the same grid.
\<close>

theorem region_label_order:
  "(\<forall>p l. in_bounds wmask p \<and> 0 < l \<and> l \<le> get2 (region_label wmask) p
        \<longrightarrow> (\<exists>q. walk wmask q \<and> get2 (region_label wmask) q = l))
   \<and> (\<forall>p q. in_bounds wmask p \<and> before p q \<and> first_of_region wmask q
        \<longrightarrow> get2 (region_label wmask) p < get2 (region_label wmask) q)
   \<and> (\<forall>q. walk wmask q \<and> (\<forall>x. walk wmask x \<longrightarrow> \<not> before x q)
        \<longrightarrow> get2 (region_label wmask) q = 1)"
proof -
  let ?R = "region_label wmask" and ?L0 = "map (map (\<lambda>_. 0 :: int)) wmask"
  let ?ps = "positions wmask"
  have R: "?R = scan wmask ?ps ?L0 1" by (simp add: region_label_def)
  from region_label_inv [of wmask] obtain n where inv: "scan_inv wmask ?R n" by blast
  have c1: "\<forall>p l. in_bounds wmask p \<and> 0 < l \<and> l \<le> get2 ?R p
        \<longrightarrow> (\<exists>q. walk wmask q \<and> get2 ?R q = l)"
  proof (intro allI impI)
    fix p and l :: int
    assume a: "in_bounds wmask p \<and> 0 < l \<and> l \<le> get2 ?R p"
    then have "get2 ?R p < n" using scan_invD(4) [OF inv] by blast
    then have "l < n" using a by simp
    then show "\<exists>q. walk wmask q \<and> get2 ?R q = l" using scan_invD(7) [OF inv] a by blast
  qed
  have inb: "\<forall>x \<in> set ?ps. in_bounds wmask x" by (simp add: set_positions)
  have c2: "\<forall>p q. in_bounds wmask p \<and> before p q \<and> first_of_region wmask q
        \<longrightarrow> get2 ?R p < get2 ?R q"
  proof (intro allI impI)
    fix p q
    assume a: "in_bounds wmask p \<and> before p q \<and> first_of_region wmask q"
    then have wq: "walk wmask q"
      and first: "\<forall>x. walk wmask x \<and> before x q \<longrightarrow> (x, q) \<notin> (step4 wmask)\<^sup>*"
      by (simp_all add: first_of_region_def connected4_def)
    have qb: "in_bounds wmask q" using wq by (simp add: walk_def)
    then have qin: "q \<in> set ?ps" by (simp add: set_positions)
    have tw: "set (takeWhile (\<lambda>y. y \<noteq> q) ?ps) = {x. in_bounds wmask x \<and> before x q}"
      by (rule takeWhile_positions [OF qb])
    have old: "\<forall>x. walk wmask x \<and> get2 ?L0 x \<noteq> 0 \<longrightarrow> (x, q) \<notin> (step4 wmask)\<^sup>*"
      using init_unlabelled by blast
    have pre: "\<forall>x \<in> set (takeWhile (\<lambda>y. y \<noteq> q) ?ps). walk wmask x \<longrightarrow> (x, q) \<notin> (step4 wmask)\<^sup>*"
      using first unfolding tw by blast
    from scan_order [OF scan_inv_init inb qin wq old pre]
    have "\<forall>x \<in> set (takeWhile (\<lambda>y. y \<noteq> q) ?ps). get2 ?R x < get2 ?R q"
      unfolding R by blast
    moreover have "p \<in> set (takeWhile (\<lambda>y. y \<noteq> q) ?ps)" using a unfolding tw by blast
    ultimately show "get2 ?R p < get2 ?R q" by blast
  qed
  have c3: "\<forall>q. walk wmask q \<and> (\<forall>x. walk wmask x \<longrightarrow> \<not> before x q) \<longrightarrow> get2 ?R q = 1"
  proof (intro allI impI)
    fix q
    assume a: "walk wmask q \<and> (\<forall>x. walk wmask x \<longrightarrow> \<not> before x q)"
    then have wq: "walk wmask q" by blast
    have qb: "in_bounds wmask q" using wq by (simp add: walk_def)
    then have qin: "q \<in> set ?ps" by (simp add: set_positions)
    have tw: "set (takeWhile (\<lambda>y. y \<noteq> q) ?ps) = {x. in_bounds wmask x \<and> before x q}"
      by (rule takeWhile_positions [OF qb])
    have z: "\<forall>x. in_bounds wmask x \<longrightarrow> get2 ?L0 x = 0" using init_zero by blast
    have pre: "\<forall>x \<in> set (takeWhile (\<lambda>y. y \<noteq> q) ?ps). \<not> walk wmask x"
      using a unfolding tw by blast
    show "get2 ?R q = 1"
      unfolding R by (rule scan_first [OF scan_inv_init z qin wq pre])
  qed
  show ?thesis using c1 c2 c3 by blast
qed

theorem region_label_order_witness:
  "(\<exists>q. walk [[False, True, False], [True, False, True]] q
        \<and> get2 (region_label [[False, True, False], [True, False, True]]) q = 2)
   \<and> get2 (region_label [[False, True, False], [True, False, True]]) (0, 1)
       < get2 (region_label [[False, True, False], [True, False, True]]) (1, 0)
   \<and> get2 (region_label [[False, True, False], [True, False, True]]) (0, 1) = 1"
proof -
  let ?M = "[[False, True, False], [True, False, True]]"
  have lab: "region_label ?M = [[0, 1, 0], [2, 0, 3]]" by code_simp
  have h1: "in_bounds ?M (1, 2) \<and> (0 :: int) < 2 \<and> 2 \<le> get2 (region_label ?M) (1, 2)"
    unfolding lab by (simp add: in_bounds_def get2_def)
  have w: "walk ?M x \<longleftrightarrow> x = (0, 1) \<or> x = (1, 0) \<or> x = (1, 2)" for x
  proof (cases x)
    case (Pair r c)
    show ?thesis
      unfolding Pair walk_def in_bounds_def get2_def
      by (auto simp: less_Suc_eq nth_Cons' numeral_2_eq_2 numeral_3_eq_3)
  qed
  have iso: "y = (1, 0)" if "(x, y) \<in> (step4 ?M)\<^sup>*" "x = (1, 0)" for x y
    using that by (induction rule: rtrancl_induct) (auto simp: step4_def w adj4_def)
  have first: "first_of_region ?M (1, 0)"
    unfolding first_of_region_def connected4_def
  proof (intro conjI allI impI)
    show "walk ?M (1, 0)" by (simp add: w)
  next
    fix x assume a: "walk ?M x \<and> before x (1, 0)"
    then have x: "x = (0, 1)" by (auto simp: w before_def)
    show "(x, (1, 0)) \<notin> (step4 ?M)\<^sup>*"
    proof
      assume "(x, (1, 0)) \<in> (step4 ?M)\<^sup>*"
      then have "((1, 0), x) \<in> (step4 ?M)\<^sup>*" by (rule step4_rtrancl_sym)
      from iso [OF this] x show False by simp
    qed
  qed
  have h2: "in_bounds ?M (0, 1) \<and> before (0, 1) (1, 0) \<and> first_of_region ?M (1, 0)"
    using first by (simp add: in_bounds_def before_def)
  have h3: "walk ?M (0, 1) \<and> (\<forall>x. walk ?M x \<longrightarrow> \<not> before x (0, 1))"
    by (auto simp: w before_def)
  show ?thesis using region_label_order [of ?M] h1 h2 h3 by blast
qed


section \<open>The hand-written labeler against the Region Labeler\<close>

text \<open>
  C10 fails on the code: \<open>flood_fill\<close> never labels its start cell itself, only cells
  reached from a neighbour. For the one-row grid \<open>(-)W\<close> the room \<open>-\<close> has its anchor on
  the parenthesis at column 0, whose only neighbour in the grid is the wall glyph at
  column 1. \<open>label_rooms\<close> leaves the anchor at 1, the value of every walkable cell that
  was not flooded, so \<open>count_chairs\<close> counts the chair at column 3 for that room; with the
  Region Labeler the anchor is a region of its own and the room has no chair.
\<close>

theorem label_rooms_isolated_anchor:
  "find_rooms [''(-)W''] = [(''-'', (0, 0))]
   \<and> label_rooms (walkable [''(-)W'']) (find_rooms [''(-)W'']) = Some [[1, 0, 1, 1]]
   \<and> count_chairs [''(-)W''] [[1, 0, 1, 1]] (find_rooms [''(-)W''])
       = Inr ([(CHR ''W'', 1), (CHR ''P'', 0), (CHR ''S'', 0), (CHR ''C'', 0)],
              [(''-'', [(CHR ''W'', 1), (CHR ''P'', 0), (CHR ''S'', 0), (CHR ''C'', 0)])])
   \<and> region_label (walkable [''(-)W'']) = [[1, 0, 2, 2]]
   \<and> count_chairs [''(-)W''] (region_label (walkable [''(-)W''])) (find_rooms [''(-)W''])
       = Inr ([(CHR ''W'', 0), (CHR ''P'', 0), (CHR ''S'', 0), (CHR ''C'', 0)],
              [(''-'', [(CHR ''W'', 0), (CHR ''P'', 0), (CHR ''S'', 0), (CHR ''C'', 0)])])"
  by code_simp

section \<open>The counts of a region and the totals\<close>


lemma sorted_before_distinct: "sorted_wrt before xs \<Longrightarrow> distinct xs"
  by (induction xs) (auto simp: before_def)

lemma distinct_positions: "distinct (positions g)"
  by (rule sorted_before_distinct [OF sorted_positions])

text \<open>The array count of \<open>count_chairs\<close> is the number of cells with the label and the symbol.\<close>

lemma count_masked_census: "count_masked room_array labels l ch = region_census room_array labels l ch"
proof -
  let ?P = "\<lambda>p. get2 labels p = l \<and> get2 room_array p = ch"
  have "length (filter ?P (positions room_array)) = card ({p. ?P p} \<inter> set (positions room_array))"
    by (rule distinct_length_filter [OF distinct_positions])
  also have "{p. ?P p} \<inter> set (positions room_array)
      = {q. in_bounds room_array q \<and> get2 labels q = l \<and> get2 room_array q = ch}"
    by (auto simp: set_positions)
  finally show ?thesis by (simp add: count_masked_def region_census_def)
qed

lemma region_counts_census:
  "region_counts room_array labels l = map (\<lambda>ch. (ch, region_census room_array labels l ch)) CHAIR_TYPES"
  by (simp add: region_counts_def count_masked_census)

text \<open>
  C4: for every grid, label grid of the same shape and room mapping (distinct names,
  anchors inside the grid), \<open>count_chairs\<close> returns; every room reports, for each chair
  type, the number of cells of the whole grid that carry its anchor's label and hold that
  chair symbol, so two rooms whose anchors have the same label report the same full
  counts, each under its own name; and for every chair type the reported total is the sum
  over all rooms of that room's count, a region shared by two rooms being counted twice.
\<close>

theorem count_chairs_totals_law:
  assumes "distinct (map fst rooms)"
    and "\<forall>(name, p) \<in> set rooms. in_bounds labels p"
    and "map length labels = map length room_array"
  shows "\<exists>totals room_counts.
     count_chairs room_array labels rooms = Inr (totals, room_counts)
     \<and> (\<forall>(name, p) \<in> set rooms.
           map_of room_counts name
             = Some (map (\<lambda>ch. (ch, region_census room_array labels (get2 labels p) ch)) CHAIR_TYPES))
     \<and> (\<forall>(n1, p1) \<in> set rooms. \<forall>(n2, p2) \<in> set rooms.
           get2 labels p1 = get2 labels p2 \<longrightarrow> map_of room_counts n1 = map_of room_counts n2)
     \<and> map fst room_counts = map fst rooms
     \<and> totals = map (\<lambda>ch. (ch, \<Sum>(name, counts) \<leftarrow> room_counts. count_of counts ch)) CHAIR_TYPES
     \<and> totals = map (\<lambda>ch. (ch, \<Sum>(name, p) \<leftarrow> rooms.
                         region_census room_array labels (get2 labels p) ch)) CHAIR_TYPES"
proof -
  let ?rc = "map (\<lambda>(name, p). (name, region_counts room_array labels (get2 labels p))) rooms"
  let ?t = "map (\<lambda>ch. (ch, \<Sum>(name, p) \<leftarrow> rooms. count_masked room_array labels (get2 labels p) ch))
              CHAIR_TYPES"
  have res: "count_chairs room_array labels rooms = Inr (?t, ?rc)"
    by (rule count_chairs_result [OF assms])
  have look: "map_of ?rc name
      = Some (map (\<lambda>ch. (ch, region_census room_array labels (get2 labels p) ch)) CHAIR_TYPES)"
    if "(name, p) \<in> set rooms" for name p
    using map_of_rooms [OF assms(1) that, of "\<lambda>p. region_counts room_array labels (get2 labels p)"]
    by (simp add: region_counts_census)
  have same: "map_of ?rc n1 = map_of ?rc n2"
    if "(n1, p1) \<in> set rooms" "(n2, p2) \<in> set rooms" "get2 labels p1 = get2 labels p2"
    for n1 p1 n2 p2
    using look [OF that(1)] look [OF that(2)] that(3) by simp
  have keys: "map fst ?rc = map fst rooms" by (simp add: case_prod_unfold comp_def)
  have sums: "(\<Sum>(name, counts) \<leftarrow> ?rc. count_of counts ch)
      = (\<Sum>(name, p) \<leftarrow> rooms. count_masked room_array labels (get2 labels p) ch)"
    if "ch \<in> set CHAIR_TYPES" for ch
    using that by (simp add: comp_def case_prod_unfold count_of_region_counts)
  have tot: "?t = map (\<lambda>ch. (ch, \<Sum>(name, counts) \<leftarrow> ?rc. count_of counts ch)) CHAIR_TYPES"
    using sums by (intro map_cong) auto
  have tot2: "?t = map (\<lambda>ch. (ch, \<Sum>(name, p) \<leftarrow> rooms.
                         region_census room_array labels (get2 labels p) ch)) CHAIR_TYPES"
    by (simp add: count_masked_census)
  show ?thesis
    using res look same keys tot tot2 by blast
qed

theorem count_chairs_totals_law_witness:
  "count_chairs [''(a) W'', ''W(b)P'', ''--+--'', ''W W C'']
       [[1, 1, 1, 1, 1], [1, 1, 1, 1, 1], [0, 0, 0, 0, 0], [2, 2, 2, 2, 2]]
       [(''a'', (0, 0)), (''b'', (1, 1))]
     = Inr ([(CHR ''W'', 4), (CHR ''P'', 2), (CHR ''S'', 0), (CHR ''C'', 0)],
            [(''a'', [(CHR ''W'', 2), (CHR ''P'', 1), (CHR ''S'', 0), (CHR ''C'', 0)]),
             (''b'', [(CHR ''W'', 2), (CHR ''P'', 1), (CHR ''S'', 0), (CHR ''C'', 0)])])
   \<and> region_census [''(a) W'', ''W(b)P'', ''--+--'', ''W W C'']
         [[1, 1, 1, 1, 1], [1, 1, 1, 1, 1], [0, 0, 0, 0, 0], [2, 2, 2, 2, 2]] 1 CHR ''W'' = 2
   \<and> region_census [''(a) W'', ''W(b)P'', ''--+--'', ''W W C'']
         [[1, 1, 1, 1, 1], [1, 1, 1, 1, 1], [0, 0, 0, 0, 0], [2, 2, 2, 2, 2]] 1 CHR ''P'' = 1"
proof -
  let ?g = "[''(a) W'', ''W(b)P'', ''--+--'', ''W W C'']"
  let ?L = "[[1, 1, 1, 1, 1], [1, 1, 1, 1, 1], [0, 0, 0, 0, 0], [2, 2, 2, 2, 2 :: int]]"
  let ?R = "[(''a'', (0, 0)), (''b'', (1, 1 :: nat))] :: (string \<times> pos) list"
  have h1: "distinct (map fst ?R)" by simp
  have h2: "\<forall>(name, p) \<in> set ?R. in_bounds ?L p" by (simp add: in_bounds_def)
  have h3: "map length ?L = map length ?g" by simp
  have e: "count_chairs ?g ?L ?R
     = Inr ([(CHR ''W'', 4), (CHR ''P'', 2), (CHR ''S'', 0), (CHR ''C'', 0)],
            [(''a'', [(CHR ''W'', 2), (CHR ''P'', 1), (CHR ''S'', 0), (CHR ''C'', 0)]),
             (''b'', [(CHR ''W'', 2), (CHR ''P'', 1), (CHR ''S'', 0), (CHR ''C'', 0)])])"
    by code_simp
  from count_chairs_totals_law [OF h1 h2 h3] obtain totals room_counts where
    r: "count_chairs ?g ?L ?R = Inr (totals, room_counts)"
    and ab: "\<forall>(name, p) \<in> set ?R. map_of room_counts name
        = Some (map (\<lambda>ch. (ch, region_census ?g ?L (get2 ?L p) ch)) CHAIR_TYPES)"
    by blast
  have rc: "room_counts = [(''a'', [(CHR ''W'', 2), (CHR ''P'', 1), (CHR ''S'', 0), (CHR ''C'', 0)]),
             (''b'', [(CHR ''W'', 2), (CHR ''P'', 1), (CHR ''S'', 0), (CHR ''C'', 0)])]"
    using r e by simp
  have "map_of room_counts ''a'' = Some (map (\<lambda>ch. (ch, region_census ?g ?L 1 ch)) CHAIR_TYPES)"
    using ab by (simp add: get2_def)
  then have "map (\<lambda>ch. (ch, region_census ?g ?L 1 ch)) CHAIR_TYPES
      = [(CHR ''W'', 2), (CHR ''P'', 1), (CHR ''S'', 0), (CHR ''C'', 0)]"
    unfolding rc by simp
  then have "region_census ?g ?L 1 CHR ''W'' = 2" "region_census ?g ?L 1 CHR ''P'' = 1"
    by (simp_all add: CHAIR_TYPES_def)
  then show ?thesis using e by simp
qed

end
